theory Spec2Isabelle
  imports Complex_Main "HOL-Library.Word" "HOL-Library.Log_Nat"
begin

unbundle bit_operations_syntax

section \<open>The packet of \<^verbatim>\<open>sntp_packet.py\<close>\<close>

text \<open>
  \<^verbatim>\<open>SNTP_Packet.__init__\<close> gives every instance thirteen data attributes and eleven
  format attributes (the \<^verbatim>\<open>struct\<close> codes of the fields). Python integers are
  unbounded, so every numeric attribute is an \<open>int\<close>; a timestamp is a 2-tuple of
  integers; a format is a string.
\<close>

record SNTP_Packet =
  li :: int
  vn :: int
  mode :: int
  stratum :: int
  poll :: int
  precision :: int
  root_delay :: int
  root_dispersion :: int
  reference_identifier :: int
  reference_timestamp :: "int \<times> int"
  originate_timestamp :: "int \<times> int"
  receive_timestamp :: "int \<times> int"
  transmit_timestamp :: "int \<times> int"
  li_vn_mode_format :: string
  stratum_format :: string
  poll_format :: string
  precision_format :: string
  root_delay_format :: string
  root_dispersion_format :: string
  reference_identifier_format :: string
  reference_timestamp_format :: string
  originate_timestamp_format :: string
  receive_timestamp_format :: string
  transmit_timestamp_format :: string

text \<open>The constructor \<^verbatim>\<open>SNTP_Packet()\<close>, lines 5 to 30.\<close>

definition init :: SNTP_Packet where
  "init = \<lparr> li = 0, vn = 0, mode = 0, stratum = 0, poll = 0, precision = 0,
      root_delay = 0, root_dispersion = 0, reference_identifier = 0,
      reference_timestamp = (0, 0), originate_timestamp = (0, 0),
      receive_timestamp = (0, 0), transmit_timestamp = (0, 0),
      li_vn_mode_format = ''B'', stratum_format = ''B'', poll_format = ''B'',
      precision_format = ''B'', root_delay_format = ''I'',
      root_dispersion_format = ''I'', reference_identifier_format = ''I'',
      reference_timestamp_format = ''II'', originate_timestamp_format = ''II'',
      receive_timestamp_format = ''II'', transmit_timestamp_format = ''II'' \<rparr>"

text \<open>
  No method of the class assigns a format attribute after the constructor. The
  theorems on \<^verbatim>\<open>to_bytes\<close> and \<^verbatim>\<open>from_bytes\<close> are about packets that still carry the
  constructor's formats.
\<close>

definition init_formats :: "SNTP_Packet \<Rightarrow> bool" where
  "init_formats p \<longleftrightarrow>
     li_vn_mode_format p = ''B'' \<and> stratum_format p = ''B'' \<and> poll_format p = ''B'' \<and>
     precision_format p = ''B'' \<and> root_delay_format p = ''I'' \<and>
     root_dispersion_format p = ''I'' \<and> reference_identifier_format p = ''I'' \<and>
     reference_timestamp_format p = ''II'' \<and> originate_timestamp_format p = ''II'' \<and>
     receive_timestamp_format p = ''II'' \<and> transmit_timestamp_format p = ''II''"

section \<open>The composite byte\<close>

text \<open>
  \<^verbatim>\<open>encode_li_vn_mode\<close> (line 58) shifts and adds; \<^verbatim>\<open>decode_li_vn_mode\<close>
  (lines 60 to 68) masks and shifts. On Python's unbounded integers \<^verbatim>\<open><<\<close> is
  \<open>push_bit\<close>, \<^verbatim>\<open>>>\<close> is \<open>drop_bit\<close> (both round towards minus infinity) and \<^verbatim>\<open>&\<close> is
  \<open>AND\<close> on the two's complement representation, as in HOL.
\<close>

definition encode_li_vn_mode :: "SNTP_Packet \<Rightarrow> int" where
  "encode_li_vn_mode p = push_bit 6 (li p) + push_bit 3 (vn p) + mode p"

definition decode_li_vn_mode :: "int \<Rightarrow> int \<times> int \<times> int" where
  "decode_li_vn_mode val =
     (let li_mask = 192; vn_mask = 56; mode_mask = 7;
          li = drop_bit 6 (val AND li_mask);
          vn = drop_bit 3 (val AND vn_mask);
          mode = val AND mode_mask
      in (li, vn, mode))"

section \<open>The \<^verbatim>\<open>struct\<close> module\<close>

text \<open>
  \<^verbatim>\<open>struct.pack\<close> and \<^verbatim>\<open>struct.unpack\<close> belong to Python's standard library. The
  model covers the fragment the program uses: the byte order mark \<^verbatim>\<open>>\<close> (big-endian,
  standard sizes, no padding) followed by the codes \<^verbatim>\<open>B\<close> (unsigned char, one byte)
  and \<^verbatim>\<open>I\<close> (unsigned int, four bytes). Any other format string is answered with
  \<open>Unsupported_format\<close>. Within the fragment every failure of the library is the
  exception \<^verbatim>\<open>struct.error\<close>: a value outside the range of its code, a wrong number
  of values, a buffer whose length is not the size of the format. A \<^verbatim>\<open>bytes\<close>
  object is a list of 8-bit words.
\<close>

datatype error = Struct_error | Index_error | Unsupported_format

datatype code = Ubyte | Uint

type_synonym byte = "8 word"

fun parse_codes :: "string \<Rightarrow> error + code list" where
  "parse_codes [] = Inr []"
| "parse_codes (c # cs) =
     (if c = CHR ''B'' then
        (case parse_codes cs of Inl e \<Rightarrow> Inl e | Inr ks \<Rightarrow> Inr (Ubyte # ks))
      else if c = CHR ''I'' then
        (case parse_codes cs of Inl e \<Rightarrow> Inl e | Inr ks \<Rightarrow> Inr (Uint # ks))
      else Inl Unsupported_format)"

fun parse_format :: "string \<Rightarrow> error + code list" where
  "parse_format [] = Inl Unsupported_format"
| "parse_format (c # cs) = (if c = CHR ''>'' then parse_codes cs else Inl Unsupported_format)"

text \<open>
  Packing one value: the library checks the range of the code and raises
  \<^verbatim>\<open>struct.error\<close> outside it; nothing is truncated. The four bytes of an
  \<^verbatim>\<open>I\<close> are written most significant first.
\<close>

fun pack_value :: "code \<Rightarrow> int \<Rightarrow> error + byte list" where
  "pack_value Ubyte v =
     (if 0 \<le> v \<and> v \<le> 255 then Inr [word_of_int v] else Inl Struct_error)"
| "pack_value Uint v =
     (if 0 \<le> v \<and> v \<le> 4294967295
      then Inr [word_of_int (drop_bit 24 v), word_of_int (drop_bit 16 v),
                word_of_int (drop_bit 8 v), word_of_int v]
      else Inl Struct_error)"

fun pack_values :: "code list \<Rightarrow> int list \<Rightarrow> error + byte list" where
  "pack_values [] [] = Inr []"
| "pack_values [] (v # vs) = Inl Struct_error"
| "pack_values (k # ks) [] = Inl Struct_error"
| "pack_values (k # ks) (v # vs) =
     (case pack_value k v of
        Inl e \<Rightarrow> Inl e
      | Inr bs \<Rightarrow> (case pack_values ks vs of Inl e \<Rightarrow> Inl e | Inr rest \<Rightarrow> Inr (bs @ rest)))"

definition struct_pack :: "string \<Rightarrow> int list \<Rightarrow> error + byte list" where
  "struct_pack fmt vals =
     (case parse_format fmt of Inl e \<Rightarrow> Inl e | Inr ks \<Rightarrow> pack_values ks vals)"

text \<open>Unpacking: a \<^verbatim>\<open>B\<close> reads one byte, an \<^verbatim>\<open>I\<close> four, most significant first.\<close>

definition be32 :: "byte \<Rightarrow> byte \<Rightarrow> byte \<Rightarrow> byte \<Rightarrow> int" where
  "be32 b0 b1 b2 b3 =
     push_bit 24 (uint b0) + push_bit 16 (uint b1) + push_bit 8 (uint b2) + uint b3"

fun unpack_values :: "code list \<Rightarrow> byte list \<Rightarrow> error + int list" where
  "unpack_values [] [] = Inr []"
| "unpack_values [] (b # bs) = Inl Struct_error"
| "unpack_values (Ubyte # ks) (b # bs) =
     (case unpack_values ks bs of Inl e \<Rightarrow> Inl e | Inr vs \<Rightarrow> Inr (uint b # vs))"
| "unpack_values (Uint # ks) (b0 # b1 # b2 # b3 # bs) =
     (case unpack_values ks bs of
        Inl e \<Rightarrow> Inl e
      | Inr vs \<Rightarrow> Inr (be32 b0 b1 b2 b3 # vs))"
| "unpack_values (k # ks) bs = Inl Struct_error"

definition struct_unpack :: "string \<Rightarrow> byte list \<Rightarrow> error + int list" where
  "struct_unpack fmt buff =
     (case parse_format fmt of Inl e \<Rightarrow> Inl e | Inr ks \<Rightarrow> unpack_values ks buff)"

text \<open>\<^verbatim>\<open>struct.calcsize\<close>: the number of bytes of a format.\<close>

fun calcsize :: "code list \<Rightarrow> nat" where
  "calcsize [] = 0"
| "calcsize (Ubyte # ks) = 1 + calcsize ks"
| "calcsize (Uint # ks) = 4 + calcsize ks"

section \<open>Serialising and parsing a packet\<close>

text \<open>\<^verbatim>\<open>get_packet_format\<close>, lines 84 to 98: the join of the mark and the eleven formats.\<close>

definition get_packet_format :: "SNTP_Packet \<Rightarrow> string" where
  "get_packet_format p = concat
     [''>'', li_vn_mode_format p, stratum_format p, poll_format p, precision_format p,
      root_delay_format p, root_dispersion_format p, reference_identifier_format p,
      reference_timestamp_format p, originate_timestamp_format p,
      receive_timestamp_format p, transmit_timestamp_format p]"

text \<open>\<^verbatim>\<open>get_packet_value\<close>, lines 100 to 113; a starred timestamp contributes its two parts.\<close>

definition get_packet_value :: "SNTP_Packet \<Rightarrow> int list" where
  "get_packet_value p =
     [encode_li_vn_mode p, stratum p, poll p, precision p, root_delay p, root_dispersion p,
      reference_identifier p,
      fst (reference_timestamp p), snd (reference_timestamp p),
      fst (originate_timestamp p), snd (originate_timestamp p),
      fst (receive_timestamp p), snd (receive_timestamp p),
      fst (transmit_timestamp p), snd (transmit_timestamp p)]"

text \<open>\<^verbatim>\<open>to_bytes\<close>, lines 32 and 33.\<close>

definition to_bytes :: "SNTP_Packet \<Rightarrow> error + byte list" where
  "to_bytes p = struct_pack (get_packet_format p) (get_packet_value p)"

text \<open>
  \<^verbatim>\<open>from_bytes\<close>, lines 35 to 53, unpacks the buffer, assigns the unpacked fields to
  \<^verbatim>\<open>self\<close> by position (lines 37 to 51, \<open>assign_fields\<close>) and returns \<^verbatim>\<open>self\<close>.
  An index past the end of the unpacked tuple raises \<^verbatim>\<open>IndexError\<close>; the highest
  index read is 14.
\<close>

definition assign_fields :: "SNTP_Packet \<Rightarrow> int list \<Rightarrow> SNTP_Packet" where
  "assign_fields self fields' =
     (case decode_li_vn_mode (fields' ! 0) of
        (li', vn', mode') \<Rightarrow>
          self\<lparr> li := li', vn := vn', mode := mode',
            stratum := fields' ! 1,
            poll := fields' ! 2,
            precision := fields' ! 3,
            root_delay := fields' ! 4,
            root_dispersion := fields' ! 5,
            reference_identifier := fields' ! 6,
            reference_timestamp := (fields' ! 7, fields' ! 8),
            originate_timestamp := (fields' ! 9, fields' ! 10),
            receive_timestamp := (fields' ! 11, fields' ! 12),
            transmit_timestamp := (fields' ! 13, fields' ! 14) \<rparr>)"

definition from_bytes :: "SNTP_Packet \<Rightarrow> byte list \<Rightarrow> error + SNTP_Packet" where
  "from_bytes self buff =
     (case struct_unpack (get_packet_format self) buff of
        Inl e \<Rightarrow> Inl e
      | Inr fields' \<Rightarrow>
          if length fields' < 15 then Inl Index_error
          else Inr (assign_fields self fields'))"

section \<open>Ranges of the packed values\<close>

text \<open>
  With the constructor's formats the packet format is \<^verbatim>\<open>>BBBBIIIIIIIIIII\<close>: four
  unsigned bytes and eleven unsigned 32-bit integers, 48 bytes in all. A value
  \<open>fits\<close> its code when it lies in the range \<^verbatim>\<open>struct.pack\<close> accepts for it.
\<close>

definition packet_codes :: "code list" where
  "packet_codes = [Ubyte, Ubyte, Ubyte, Ubyte, Uint, Uint, Uint,
                   Uint, Uint, Uint, Uint, Uint, Uint, Uint, Uint]"

fun fits :: "code \<Rightarrow> int \<Rightarrow> bool" where
  "fits Ubyte v \<longleftrightarrow> 0 \<le> v \<and> v \<le> 255"
| "fits Uint v \<longleftrightarrow> 0 \<le> v \<and> v \<le> 4294967295"

text \<open>
  The field ranges under which a packet survives \<^verbatim>\<open>to_bytes\<close>: the three parts of
  the composite byte within their bit widths, and every other field within the range
  of its format code. The code of \<open>precision\<close> is the unsigned \<^verbatim>\<open>B\<close>, so its range
  is 0 to 255.
\<close>

definition well_formed :: "SNTP_Packet \<Rightarrow> bool" where
  "well_formed p \<longleftrightarrow>
     0 \<le> li p \<and> li p \<le> 3 \<and> 0 \<le> vn p \<and> vn p \<le> 7 \<and> 0 \<le> mode p \<and> mode p \<le> 7 \<and>
     0 \<le> stratum p \<and> stratum p \<le> 255 \<and> 0 \<le> poll p \<and> poll p \<le> 255 \<and>
     0 \<le> precision p \<and> precision p \<le> 255 \<and>
     0 \<le> root_delay p \<and> root_delay p \<le> 4294967295 \<and>
     0 \<le> root_dispersion p \<and> root_dispersion p \<le> 4294967295 \<and>
     0 \<le> reference_identifier p \<and> reference_identifier p \<le> 4294967295 \<and>
     0 \<le> fst (reference_timestamp p) \<and> fst (reference_timestamp p) \<le> 4294967295 \<and>
     0 \<le> snd (reference_timestamp p) \<and> snd (reference_timestamp p) \<le> 4294967295 \<and>
     0 \<le> fst (originate_timestamp p) \<and> fst (originate_timestamp p) \<le> 4294967295 \<and>
     0 \<le> snd (originate_timestamp p) \<and> snd (originate_timestamp p) \<le> 4294967295 \<and>
     0 \<le> fst (receive_timestamp p) \<and> fst (receive_timestamp p) \<le> 4294967295 \<and>
     0 \<le> snd (receive_timestamp p) \<and> snd (receive_timestamp p) \<le> 4294967295 \<and>
     0 \<le> fst (transmit_timestamp p) \<and> fst (transmit_timestamp p) \<le> 4294967295 \<and>
     0 \<le> snd (transmit_timestamp p) \<and> snd (transmit_timestamp p) \<le> 4294967295"

section \<open>Python floats\<close>

text \<open>
  A Python \<^verbatim>\<open>float\<close> is an IEEE 754 binary64 number. A finite float is modelled by
  the rational number it denotes, and an arithmetic operation by the exact rational
  result rounded to the nearest float, ties to the even significand (\<open>rd\<close>). The
  significand has 53 bits; below \<open>2 powi - 1022\<close> the spacing stays \<open>2 powi - 1074\<close>
  (subnormal numbers). The exponent range is not bounded above: infinities and NaN
  are not modelled, and every theorem keeps its operands far below \<open>2 ^ 1024\<close>.

  \<open>ilog2 x\<close> is the exponent of the binade of \<open>x\<close>, the integer \<open>k\<close> with
  \<open>2 powi k \<le> \<bar>x\<bar> < 2 powi (k + 1)\<close>, computed from the bit lengths of numerator
  and denominator; \<open>qexp x\<close> is the exponent of the spacing of the floats around
  \<open>x\<close>.
\<close>

definition ilog2 :: "rat \<Rightarrow> int" where
  "ilog2 x =
     (case quotient_of \<bar>x\<bar> of
        (p, q) \<Rightarrow> let k = bitlen p - bitlen q in if 2 powi k \<le> \<bar>x\<bar> then k else k - 1)"

definition qexp :: "rat \<Rightarrow> int" where
  "qexp x = max (ilog2 x) (- 1022) - 52"

definition round_half_even :: "rat \<Rightarrow> int" where
  "round_half_even y =
     (let n = \<lfloor>y\<rfloor>; d = y - of_int n
      in if d < 1 / 2 then n else if 1 / 2 < d then n + 1 else if even n then n else n + 1)"

definition rd :: "rat \<Rightarrow> rat" where
  "rd x = (if x = 0 then 0 else of_int (round_half_even (x / 2 powi qexp x)) * 2 powi qexp x)"

text \<open>A rational number is a float when rounding leaves it alone.\<close>

definition is_double :: "rat \<Rightarrow> bool" where
  "is_double x \<longleftrightarrow> rd x = x"

text \<open>
  The operations the program uses. \<^verbatim>\<open>float - float\<close>, \<^verbatim>\<open>float + float\<close>,
  \<^verbatim>\<open>float * float\<close> and \<^verbatim>\<open>float / float\<close> round the exact result. An \<^verbatim>\<open>int\<close> operand
  of a mixed operation is first converted to the nearest float. \<^verbatim>\<open>int / int\<close> is
  Python's true division: the exact quotient, rounded once. \<^verbatim>\<open>int(x)\<close> truncates
  towards zero. The program divides by the constants \<^verbatim>\<open>2\<close> and \<^verbatim>\<open>2 ** 32\<close> only, so
  \<^verbatim>\<open>ZeroDivisionError\<close> has no place in the model.
\<close>

definition fadd :: "rat \<Rightarrow> rat \<Rightarrow> rat" where
  "fadd x y = rd (x + y)"

definition fsub :: "rat \<Rightarrow> rat \<Rightarrow> rat" where
  "fsub x y = rd (x - y)"

definition fmul :: "rat \<Rightarrow> rat \<Rightarrow> rat" where
  "fmul x y = rd (x * y)"

definition fdiv :: "rat \<Rightarrow> rat \<Rightarrow> rat" where
  "fdiv x y = rd (x / y)"

definition float_of_int :: "int \<Rightarrow> rat" where
  "float_of_int n = rd (of_int n)"

definition int_truediv :: "int \<Rightarrow> int \<Rightarrow> rat" where
  "int_truediv a b = rd (of_int a / of_int b)"

definition int_of_float :: "rat \<Rightarrow> int" where
  "int_of_float x = (if 0 \<le> x then \<lfloor>x\<rfloor> else \<lceil>x\<rceil>)"

section \<open>NTP timestamps\<close>

text \<open>
  \<^verbatim>\<open>get_ntp_timestamp_offset\<close> (line 116) is
  \<^verbatim>\<open>datetime.datetime(1900, 1, 1, tzinfo=datetime.timezone.utc).timestamp()\<close>. For an
  aware \<^verbatim>\<open>datetime\<close> the library returns \<^verbatim>\<open>(self - _EPOCH).total_seconds()\<close> with
  \<^verbatim>\<open>_EPOCH\<close> the first of January 1970 in UTC: the difference of the two dates in
  days, from their proleptic Gregorian ordinals, gives a \<^verbatim>\<open>timedelta\<close> whose
  \<^verbatim>\<open>total_seconds\<close> is \<^verbatim>\<open>((days * 86400 + seconds) * 10**6 + microseconds) / 10**6\<close>.
  Both dates are a first of January at midnight, so only the days before the year
  count.
\<close>

definition days_before_year :: "int \<Rightarrow> int" where
  "days_before_year year =
     (let y = year - 1 in y * 365 + y div 4 - y div 100 + y div 400)"

definition toordinal_jan1 :: "int \<Rightarrow> int" where
  "toordinal_jan1 year = days_before_year year + 1"

definition get_ntp_timestamp_offset :: rat where
  "get_ntp_timestamp_offset =
     (let days = toordinal_jan1 1900 - toordinal_jan1 1970
      in int_truediv ((days * 86400 + 0) * 10 ^ 6 + 0) (10 ^ 6))"

text \<open>\<^verbatim>\<open>encode_ntp_timestamp\<close>, lines 70 to 76; the argument is a float.\<close>

definition encode_ntp_timestamp :: "rat \<Rightarrow> int \<times> int" where
  "encode_ntp_timestamp timestamp =
     (let ntp_timestamp = fsub timestamp get_ntp_timestamp_offset;
          second = int_of_float ntp_timestamp;
          fraction_second =
            int_of_float (fmul (fsub ntp_timestamp (float_of_int second)) (float_of_int (2 ^ 32)))
      in (second, fraction_second))"

text \<open>\<^verbatim>\<open>decode_ntp_timestamp\<close>, lines 78 to 82; the arguments are the two integers of a pair.\<close>

definition decode_ntp_timestamp :: "int \<Rightarrow> int \<Rightarrow> rat" where
  "decode_ntp_timestamp seconds fraction_seconds =
     (let fraction_seconds' = int_truediv fraction_seconds (2 ^ 32);
          ntp_timestamp = fadd (float_of_int seconds) fraction_seconds';
          timestamp = fadd ntp_timestamp get_ntp_timestamp_offset
      in timestamp)"

text \<open>
  \<^verbatim>\<open>client_packet\<close>, lines 138 to 151. The parameter \<open>curr_time\<close> is the reading of the
  clock, \<^verbatim>\<open>datetime.datetime.now(tz=datetime.timezone.utc).timestamp()\<close>.
\<close>

definition client_packet :: "rat \<Rightarrow> SNTP_Packet" where
  "client_packet curr_time =
     (let packet = init;
          packet = packet\<lparr>li := 0\<rparr>;
          packet = packet\<lparr>vn := 4\<rparr>;
          packet = packet\<lparr>mode := 3\<rparr>;
          packet = packet\<lparr>transmit_timestamp := encode_ntp_timestamp curr_time\<rparr>
      in packet)"

text \<open>
  \<^verbatim>\<open>compute_offset\<close>, lines 153 to 159. The four parameters are pairs of integers, in
  the order of the signature: client transmission, client reception, server
  transmission, server reception.
\<close>

definition compute_offset ::
  "int \<times> int \<Rightarrow> int \<times> int \<Rightarrow> int \<times> int \<Rightarrow> int \<times> int \<Rightarrow> rat" where
  "compute_offset client_transmission_time client_reception_time
                  server_transmission_time server_reception_time =
     (let theta_1_second = fst server_reception_time - fst client_transmission_time;
          theta_1_fraction =
            int_truediv (snd server_reception_time - snd client_transmission_time) (2 ^ 32);
          theta_2_second = fst server_transmission_time - fst client_reception_time;
          theta_2_fraction =
            int_truediv (snd server_transmission_time - snd client_reception_time) (2 ^ 32)
      in fdiv (fadd (fadd (fadd (float_of_int theta_1_second) theta_1_fraction)
                          (float_of_int theta_2_second))
                    theta_2_fraction)
              (float_of_int 2))"

section \<open>Notions used by the claims on timestamps\<close>

text \<open>An unsigned 32-bit value, and a timestamp pair of two such values.\<close>

definition u32 :: "int \<Rightarrow> bool" where
  "u32 v \<longleftrightarrow> 0 \<le> v \<and> v < 2 ^ 32"

definition ntp_pair :: "int \<times> int \<Rightarrow> bool" where
  "ntp_pair t \<longleftrightarrow> u32 (fst t) \<and> u32 (snd t)"

text \<open>Encoding a calendar time and decoding the pair again.\<close>

definition roundtrip_timestamp :: "rat \<Rightarrow> rat" where
  "roundtrip_timestamp t = (case encode_ntp_timestamp t of (s, f) \<Rightarrow> decode_ntp_timestamp s f)"

text \<open>
  The offset formula in the words of the specification, over the rational numbers:
  \<open>t1\<close> is the client's transmit timestamp, \<open>t2\<close> the server's receive timestamp,
  \<open>t3\<close> the server's transmit timestamp, \<open>t4\<close> the client's receive timestamp,
  and the result is \<open>(theta1 + theta2) / 2\<close> with signed differences. It is the
  yardstick for \<open>compute_offset\<close>, which is translated from the code.
\<close>

definition spec_offset :: "int \<times> int \<Rightarrow> int \<times> int \<Rightarrow> int \<times> int \<Rightarrow> int \<times> int \<Rightarrow> rat" where
  "spec_offset t1 t2 t3 t4 =
     ((of_int (fst t2 - fst t1) + of_int (snd t2 - snd t1) / 2 ^ 32) +
      (of_int (fst t3 - fst t4) + of_int (snd t3 - snd t4) / 2 ^ 32)) / 2"

section \<open>Lemmas on the composite byte and on packing\<close>

subsection \<open>The composite byte as quotients and remainders\<close>

lemma dec_mode: "(v::int) AND 7 = take_bit 3 v"
  by (simp add: take_bit_eq_mask mask_eq_exp_minus_1)

lemma dec_vn: "drop_bit 3 ((v::int) AND 56) = take_bit 3 (drop_bit 3 v)"
  by (simp add: drop_bit_and take_bit_eq_mask mask_eq_exp_minus_1)

lemma dec_li: "drop_bit 6 ((v::int) AND 192) = take_bit 2 (drop_bit 6 v)"
  by (simp add: drop_bit_and take_bit_eq_mask mask_eq_exp_minus_1)

lemma decode_alt: "decode_li_vn_mode v = (v div 64 mod 4, v div 8 mod 8, v mod 8)"
  unfolding decode_li_vn_mode_def Let_def dec_li dec_vn dec_mode
  by (simp add: take_bit_eq_mod drop_bit_eq_div)

lemma push_bit_and_small:
  fixes a m :: int
  assumes "0 \<le> m" "m < 2 ^ k"
  shows "push_bit k a AND m = 0"
proof -
  have "m = take_bit k m" using assms by (simp add: take_bit_int_eq_self)
  then have "push_bit k a AND m = push_bit k a AND take_bit k m" by simp
  also have "\<dots> = 0" by (auto simp: bit_eq_iff bit_simps)
  finally show ?thesis .
qed

lemma enc_or:
  assumes "0 \<le> l" "l \<le> 3" "0 \<le> v" "v \<le> 7" "0 \<le> m" "m \<le> 7"
  shows "push_bit 6 l + push_bit 3 v + m = push_bit 6 l OR push_bit 3 v OR (m::int)"
proof -
  have 1: "push_bit 3 v + m = push_bit 3 v OR m"
    using assms by (intro disjunctive_add_eq_or push_bit_and_small) simp_all
  have "0 \<le> push_bit 3 v + m" "push_bit 3 v + m < 2 ^ 6"
    using assms by (simp_all add: push_bit_eq_mult)
  then have "push_bit 6 l + (push_bit 3 v + m) = push_bit 6 l OR (push_bit 3 v + m)"
    by (intro disjunctive_add_eq_or push_bit_and_small)
  then show ?thesis by (simp add: 1 add.assoc or.assoc)
qed

lemma split8: 
  fixes m k :: int assumes "0 \<le> m" "m < 8"
  shows "(m + 8 * k) mod 8 = m" "(m + 8 * k) div 8 = k"
  using assms by simp_all

lemma enc_arith:
  fixes l v m :: int
  assumes "0 \<le> l" "l \<le> 3" "0 \<le> v" "v \<le> 7" "0 \<le> m" "m \<le> 7"
  defines "b \<equiv> l * 64 + v * 8 + m"
  shows "b div 64 mod 4 = l" "b div 8 mod 8 = v" "b mod 8 = m"
proof -
  have e: "b = m + 8 * (v + 8 * l)" by (simp add: b_def)
  show "b mod 8 = m"
    unfolding e using assms by (intro split8) simp_all
  have b8: "b div 8 = v + 8 * l"
    unfolding e using assms by (intro split8) simp_all
  show "b div 8 mod 8 = v" 
    unfolding b8 using assms by (intro split8) simp_all
  have "b div 8 div 8 = l"
    unfolding b8 using assms by (intro split8) simp_all
  then show "b div 64 mod 4 = l"
    using assms zdiv_zmult2_eq[of 8 b 8] by simp
qed

lemma div64_small:
  fixes b :: int
  assumes "0 \<le> b" "b \<le> 255"
  shows "b div 64 mod 4 = b div 64"
proof -
  have "b div 64 \<le> 255 div 64" using assms(2) by (intro zdiv_mono1) simp_all
  moreover have "0 \<le> b div 64" using assms(1) by (simp add: pos_imp_zdiv_nonneg_iff)
  ultimately show ?thesis by simp
qed

lemma dec_arith:
  fixes b :: int
  shows "b div 64 * 64 + b div 8 mod 8 * 8 + b mod 8 = b"
proof -
  have 1: "b = 8 * (b div 8) + b mod 8" by simp
  have 2: "b div 8 = 8 * (b div 8 div 8) + b div 8 mod 8" by simp
  have 3: "b div 8 div 8 = b div 64" using zdiv_zmult2_eq[of 8 b 8] by simp
  show ?thesis using 1 2 3 by linarith
qed

subsection \<open>Bytes and big-endian words\<close>

lemma uint_byte_of_int: "uint (word_of_int v :: byte) = v mod 256"
  by (simp add: uint_word_of_int)

lemma byte_of_int_shift: "(word_of_int (k * 256 + uint b) :: byte) = b"
proof -
  have "uint (word_of_int (k * 256 + uint b) :: byte) = uint b"
    unfolding uint_byte_of_int using uint_lt2p[of b] by simp
  then show ?thesis by (simp only: word_uint_eq_iff)
qed

lemma uint_byte_bounds: "0 \<le> uint (b::byte)" "uint (b::byte) \<le> 255"
  using uint_lt2p[of b] by simp_all


lemma be32_alt: "be32 b0 b1 b2 b3 = ((uint b0 * 256 + uint b1) * 256 + uint b2) * 256 + uint b3"
  by (simp add: be32_def push_bit_eq_mult)

lemma div256: fixes k r :: int assumes "0 \<le> r" "r \<le> 255" shows "(k * 256 + r) div 256 = k"
  using assms by simp

lemma horner256_bounds:
  fixes a b c d :: int
  assumes "0 \<le> a" "a \<le> 255" "0 \<le> b" "b \<le> 255" "0 \<le> c" "c \<le> 255" "0 \<le> d" "d \<le> 255"
  shows "0 \<le> ((a * 256 + b) * 256 + c) * 256 + d" "((a * 256 + b) * 256 + c) * 256 + d \<le> 4294967295"
  using assms by simp_all

lemma be32_lower: "0 \<le> be32 b0 b1 b2 b3"
  unfolding be32_alt by (rule horner256_bounds) (rule uint_byte_bounds)+

lemma be32_upper: "be32 b0 b1 b2 b3 \<le> 4294967295"
  unfolding be32_alt by (rule horner256_bounds) (rule uint_byte_bounds)+

lemma be32_div:
  "be32 b0 b1 b2 b3 div 256 = (uint b0 * 256 + uint b1) * 256 + uint b2"
  "be32 b0 b1 b2 b3 div 65536 = uint b0 * 256 + uint b1"
  "be32 b0 b1 b2 b3 div 16777216 = uint b0"
proof -
  show 1: "be32 b0 b1 b2 b3 div 256 = (uint b0 * 256 + uint b1) * 256 + uint b2"
    unfolding be32_alt by (rule div256) (rule uint_byte_bounds)+
  have "be32 b0 b1 b2 b3 div 65536 = be32 b0 b1 b2 b3 div 256 div 256"
    using zdiv_zmult2_eq[of 256 "be32 b0 b1 b2 b3" 256] by simp
  also have "\<dots> = uint b0 * 256 + uint b1"
    unfolding 1 by (rule div256) (rule uint_byte_bounds)+
  finally show 2: "be32 b0 b1 b2 b3 div 65536 = uint b0 * 256 + uint b1" .
  have "be32 b0 b1 b2 b3 div 16777216 = be32 b0 b1 b2 b3 div 65536 div 256"
    using zdiv_zmult2_eq[of 65536 "be32 b0 b1 b2 b3" 256] by simp
  also have "\<dots> = uint b0"
    unfolding 2 using div256[of "uint b1" "uint b0"] uint_byte_bounds[of b1] by simp
  finally show "be32 b0 b1 b2 b3 div 16777216 = uint b0" .
qed

lemma pack_Uint_be32: "pack_value Uint (be32 b0 b1 b2 b3) = Inr [b0, b1, b2, b3]"
proof -
  have "(word_of_int (be32 b0 b1 b2 b3) :: byte) = b3"
    unfolding be32_alt by (rule byte_of_int_shift)
  moreover have "(word_of_int (be32 b0 b1 b2 b3 div 256) :: byte) = b2"
    unfolding be32_div by (rule byte_of_int_shift)
  moreover have "(word_of_int (be32 b0 b1 b2 b3 div 65536) :: byte) = b1"
    unfolding be32_div by (rule byte_of_int_shift)
  moreover have "(word_of_int (be32 b0 b1 b2 b3 div 16777216) :: byte) = b0"
    unfolding be32_div by simp
  ultimately show ?thesis
    using be32_lower[of b0 b1 b2 b3] be32_upper[of b0 b1 b2 b3] by (simp add: drop_bit_eq_div)
qed

lemma horner256:
  fixes v a b c r0 r1 r2 :: int
  assumes "v = 256 * a + r0" "a = 256 * b + r1" "b = 256 * c + r2"
  shows "((c * 256 + r2) * 256 + r1) * 256 + r0 = v"
  using assms by simp

lemma be32_of_int:
  fixes v :: int
  assumes "0 \<le> v" "v \<le> 4294967295"
  shows "be32 (word_of_int (drop_bit 24 v)) (word_of_int (drop_bit 16 v))
              (word_of_int (drop_bit 8 v)) (word_of_int v) = v"
proof -
  have 1: "v = 256 * (v div 256) + v mod 256" by simp
  have 4: "v div 256 div 256 = v div 65536" using zdiv_zmult2_eq[of 256 v 256] by simp
  have 5: "v div 65536 div 256 = v div 16777216" using zdiv_zmult2_eq[of 65536 v 256] by simp
  have 2: "v div 256 = 256 * (v div 65536) + v div 256 mod 256"
    unfolding 4[symmetric] by simp
  have 3: "v div 65536 = 256 * (v div 16777216) + v div 65536 mod 256"
    unfolding 5[symmetric] by simp
  have "v div 16777216 \<le> 4294967295 div 16777216" using assms(2) by (intro zdiv_mono1) simp_all
  moreover have "0 \<le> v div 16777216" using assms(1) by (simp add: pos_imp_zdiv_nonneg_iff)
  ultimately have 6: "v div 16777216 mod 256 = v div 16777216" by simp
  have d: "drop_bit 24 v = v div 16777216" "drop_bit 16 v = v div 65536" "drop_bit 8 v = v div 256"
    by (simp_all add: drop_bit_eq_div)
  have "((v div 16777216 mod 256 * 256 + v div 65536 mod 256) * 256 + v div 256 mod 256) * 256 + v mod 256 = v"
    unfolding 6 by (rule horner256[OF 1 2 3])
  then show ?thesis
    unfolding be32_alt uint_byte_of_int d .
qed

subsection \<open>Packing and unpacking lists of values\<close>

lemma pack_value_fits: "fits k v \<Longrightarrow> \<exists>bs. pack_value k v = Inr bs \<and> length bs = calcsize [k]"
  by (cases k) simp_all

lemma pack_value_unfit: "\<not> fits k v \<Longrightarrow> pack_value k v = Inl Struct_error"
  by (cases k) auto

lemma pack_values_fits:
  "list_all2 fits ks vs \<Longrightarrow> \<exists>bs. pack_values ks vs = Inr bs \<and> length bs = calcsize ks"
proof (induction ks vs rule: list_all2_induct)
  case Nil
  then show ?case by simp
next
  case (Cons k ks v vs)
  then obtain bs where bs: "pack_values ks vs = Inr bs" "length bs = calcsize ks" by blast
  from Cons.hyps(1) obtain b where "pack_value k v = Inr b" "length b = calcsize [k]"
    using pack_value_fits by blast
  with bs show ?case by (cases k) simp_all
qed

lemma pack_values_unfit:
  "\<not> list_all2 fits ks vs \<Longrightarrow> pack_values ks vs = Inl Struct_error"
proof (induction ks vs rule: pack_values.induct)
  case (4 k ks v vs)
  show ?case
  proof (cases "fits k v")
    case True
    then obtain b where b: "pack_value k v = Inr b" using pack_value_fits by blast
    with 4 True have "pack_values ks vs = Inl Struct_error" by simp
    with b show ?thesis by simp
  next
    case False
    then show ?thesis by (simp add: pack_value_unfit)
  qed
qed simp_all

lemma unpack_pack_values:
  "unpack_values ks bs = Inr vs \<Longrightarrow> pack_values ks vs = Inr bs"
proof (induction ks bs arbitrary: vs rule: unpack_values.induct)
  case (3 ks b bs)
  then show ?case by (auto simp: uint_byte_bounds split: sum.splits)
next
  case (4 ks b0 b1 b2 b3 bs)
  then show ?case by (auto simp: pack_Uint_be32 simp del: pack_value.simps split: sum.splits)
qed simp_all

lemma pack_unpack_values:
  "pack_values ks vs = Inr bs \<Longrightarrow> unpack_values ks bs = Inr vs"
proof (induction ks vs arbitrary: bs rule: pack_values.induct)
  case (4 k ks v vs)
  show ?case
  proof (cases k)
    case Ubyte
    with 4 show ?thesis
      by (auto simp: uint_byte_of_int split: sum.splits if_splits)
  next
    case Uint
    with 4 show ?thesis
      by (auto simp: be32_of_int split: sum.splits if_splits)
  qed
qed simp_all

lemma unpack_values_length:
  "unpack_values ks bs = Inr vs \<Longrightarrow> length bs = calcsize ks \<and> length vs = length ks"
  by (induction ks bs arbitrary: vs rule: unpack_values.induct) (auto split: sum.splits)

lemma length_ge4:
  "length bs = 4 + n \<Longrightarrow> \<exists>b0 b1 b2 b3 r. bs = b0 # b1 # b2 # b3 # r \<and> length r = n"
  by (cases bs; simp; rename_tac r1, case_tac r1; simp; rename_tac r2, case_tac r2; simp;
      rename_tac r3, case_tac r3; simp)

lemma unpack_values_total:
  "length bs = calcsize ks \<Longrightarrow> \<exists>vs. unpack_values ks bs = Inr vs"
proof (induction ks arbitrary: bs)
  case Nil
  then show ?case by simp
next
  case (Cons k ks)
  show ?case
  proof (cases k)
    case Ubyte
    with Cons.prems obtain b r where bs: "bs = b # r" "length r = calcsize ks"
      by (cases bs) simp_all
    from Cons.IH[OF bs(2)] obtain vs where "unpack_values ks r = Inr vs" by blast
    with Ubyte bs show ?thesis by simp
  next
    case Uint
    with Cons.prems have "length bs = 4 + calcsize ks" by simp
    then obtain b0 b1 b2 b3 r where bs: "bs = b0 # b1 # b2 # b3 # r" "length r = calcsize ks"
      using length_ge4 by blast
    from Cons.IH[OF bs(2)] obtain vs where "unpack_values ks r = Inr vs" by blast
    with Uint bs show ?thesis by simp
  qed
qed

lemma unpack_values_error:
  "length bs \<noteq> calcsize ks \<Longrightarrow> unpack_values ks bs = Inl Struct_error"
proof (induction ks bs rule: unpack_values.induct)
  case (3 ks b bs)
  then show ?case by (auto split: sum.splits)
next
  case (4 ks b0 b1 b2 b3 bs)
  then show ?case by (auto split: sum.splits)
qed simp_all


subsection \<open>The packet format and the fields of a packet\<close>

lemma parse_packet_format:
  "init_formats p \<Longrightarrow> parse_format (get_packet_format p) = Inr packet_codes"
  by (simp add: init_formats_def get_packet_format_def packet_codes_def)

lemma calcsize_packet_codes: "calcsize packet_codes = 48"
  by (simp add: packet_codes_def)

lemma length_packet_codes: "length packet_codes = 15"
  by (simp add: packet_codes_def)

lemma to_bytes_init_formats:
  "init_formats p \<Longrightarrow> to_bytes p = pack_values packet_codes (get_packet_value p)"
  by (simp add: to_bytes_def struct_pack_def parse_packet_format)

lemma struct_unpack_init_formats:
  "init_formats p \<Longrightarrow> struct_unpack (get_packet_format p) buff = unpack_values packet_codes buff"
  by (simp add: struct_unpack_def parse_packet_format)

lemma encode_range:
  assumes "0 \<le> li p" "li p \<le> 3" "0 \<le> vn p" "vn p \<le> 7" "0 \<le> mode p" "mode p \<le> 7"
  shows "0 \<le> encode_li_vn_mode p" "encode_li_vn_mode p \<le> 255"
  using assms by (simp_all add: encode_li_vn_mode_def push_bit_eq_mult)

lemma well_formed_fits:
  "well_formed p \<Longrightarrow> list_all2 fits packet_codes (get_packet_value p)"
  unfolding well_formed_def packet_codes_def get_packet_value_def
  by (simp add: encode_range)

lemma list15:
  "length vs = 15 \<Longrightarrow>
   vs = [vs ! 0, vs ! 1, vs ! 2, vs ! 3, vs ! 4, vs ! 5, vs ! 6, vs ! 7, vs ! 8, vs ! 9,
         vs ! 10, vs ! 11, vs ! 12, vs ! 13, vs ! 14]"
  by (rule nth_equalityI) (auto simp: nth_Cons' less_Suc_eq eval_nat_numeral)


lemma from_bytes_unpacked:
  assumes "init_formats self" "unpack_values packet_codes buff = Inr vs"
  shows "from_bytes self buff = Inr (assign_fields self vs)"
proof -
  have "length vs = 15"
    using unpack_values_length[OF assms(2)] by (simp add: length_packet_codes)
  then show ?thesis
    using assms by (simp add: from_bytes_def struct_unpack_init_formats)
qed

lemma init_formats_assign_fields:
  "init_formats self \<Longrightarrow> init_formats (assign_fields self vs)"
  by (simp add: init_formats_def assign_fields_def split: prod.splits)

lemma encode_decode:
  assumes "0 \<le> b" "b \<le> 255" "decode_li_vn_mode b = (l, v, m)"
  shows "push_bit 6 l + push_bit 3 v + m = b"
proof -
  have "l = b div 64 mod 4" and v: "v = b div 8 mod 8" and m: "m = b mod 8"
    using assms(3) unfolding decode_alt by simp_all
  then have l: "l = b div 64" by (simp only: div64_small[OF assms(1,2)])
  have "push_bit 6 l + push_bit 3 v + m = l * 64 + v * 8 + m"
    by (simp add: push_bit_eq_mult)
  also have "\<dots> = b" unfolding l v m by (rule dec_arith)
  finally show ?thesis .
qed

lemma encode_assign_fields:
  assumes "0 \<le> vs ! 0" "vs ! 0 \<le> 255"
  shows "encode_li_vn_mode (assign_fields self vs) = vs ! 0"
proof -
  obtain l v m where d: "decode_li_vn_mode (vs ! 0) = (l, v, m)"
    by (cases "decode_li_vn_mode (vs ! 0)") auto
  then have "encode_li_vn_mode (assign_fields self vs) = push_bit 6 l + push_bit 3 v + m"
    by (simp add: encode_li_vn_mode_def assign_fields_def)
  then show ?thesis using encode_decode[OF assms d] by simp
qed

lemma get_packet_value_assign_fields:
  assumes "length vs = 15" "0 \<le> vs ! 0" "vs ! 0 \<le> 255"
  shows "get_packet_value (assign_fields self vs) = vs"
proof -
  have "get_packet_value (assign_fields self vs) =
        [encode_li_vn_mode (assign_fields self vs), vs ! 1, vs ! 2, vs ! 3, vs ! 4, vs ! 5,
         vs ! 6, vs ! 7, vs ! 8, vs ! 9, vs ! 10, vs ! 11, vs ! 12, vs ! 13, vs ! 14]"
    by (simp add: get_packet_value_def assign_fields_def split: prod.splits)
  also have "\<dots> = vs"
    unfolding encode_assign_fields[OF assms(2,3)] using list15[OF assms(1)] by simp
  finally show ?thesis .
qed

lemma unpacked_head_range:
  assumes "unpack_values packet_codes buff = Inr vs"
  shows "0 \<le> vs ! 0 \<and> vs ! 0 \<le> 255"
proof -
  have "pack_values packet_codes vs = Inr buff" by (rule unpack_pack_values[OF assms])
  then have "list_all2 fits packet_codes vs"
    using pack_values_unfit by fastforce
  then show ?thesis
    by (cases vs) (simp_all add: packet_codes_def)
qed

lemma assign_fields_get_packet_value:
  assumes "init_formats p" "init_formats self"
    "0 \<le> li p" "li p \<le> 3" "0 \<le> vn p" "vn p \<le> 7" "0 \<le> mode p" "mode p \<le> 7"
  shows "assign_fields self (get_packet_value p) = p"
proof -
  have "decode_li_vn_mode (encode_li_vn_mode p) = (li p, vn p, mode p)"
    using enc_arith[OF assms(3-8)]
    by (simp add: decode_alt encode_li_vn_mode_def push_bit_eq_mult)
  then show ?thesis
    using assms(1,2)
    by (cases p; cases self) (simp add: assign_fields_def get_packet_value_def init_formats_def)
qed

lemma mod_upper: "(x::int) mod 4 \<le> 3" "(x::int) mod 8 \<le> 7"
  by simp_all

section \<open>Lemmas on rounding\<close>

subsection \<open>Powers of two and the binade exponent\<close>

lemma two_powi_pos: "0 < (2::rat) powi k"
  by simp

lemma two_powi_mono: "j \<le> k \<Longrightarrow> (2::rat) powi j \<le> 2 powi k"
  by (rule power_int_increasing) simp_all

lemma two_powi_less_cancel: "(2::rat) powi j < 2 powi k \<Longrightarrow> j < k"
  using two_powi_mono[of k j] by (cases "j < k") auto

lemma two_powi_Suc: "(2::rat) powi (k + 1) = 2 * 2 powi k"
  by (simp add: power_int_add)

lemma two_powi_add: "(2::rat) powi (j + k) = 2 powi j * 2 powi k"
  by (simp add: power_int_add)

lemma two_powi_diff: "(2::rat) powi (j - k) = 2 powi j / 2 powi k"
  by (simp add: power_int_diff)

lemma two_powi_nat: "0 \<le> k \<Longrightarrow> (2::rat) powi k = of_int (2 ^ nat k)"
  by (simp add: power_int_nonneg_exp)

lemma bitlen_rat_bounds:
  assumes "0 < p"
  shows "(2::rat) powi (bitlen p - 1) \<le> of_int p" "of_int p < (2::rat) powi (bitlen p)"
proof -
  have b: "2 ^ nat (bitlen p - 1) \<le> p" "p < 2 ^ nat (bitlen p)"
    using bitlen_bounds[OF assms] by simp_all
  have pos: "1 \<le> bitlen p"
    using assms by (simp add: bitlen_alt_def)
  have "(2::rat) powi (bitlen p - 1) = of_int (2 ^ nat (bitlen p - 1))"
    using pos by (intro two_powi_nat) simp
  also have "\<dots> \<le> of_int p" using b(1) by (simp only: of_int_le_iff)
  finally show "(2::rat) powi (bitlen p - 1) \<le> of_int p" .
  have "(of_int p :: rat) < of_int (2 ^ nat (bitlen p))" using b(2) by (simp only: of_int_less_iff)
  also have "\<dots> = 2 powi (bitlen p)"
    using pos by (intro two_powi_nat[symmetric]) simp
  finally show "of_int p < (2::rat) powi (bitlen p)" .
qed

lemma ilog2_bounds:
  assumes "x \<noteq> 0"
  shows "2 powi (ilog2 x) \<le> \<bar>x\<bar>" "\<bar>x\<bar> < 2 powi (ilog2 x + 1)"
proof -
  obtain p q where pq: "quotient_of \<bar>x\<bar> = (p, q)" by (cases "quotient_of \<bar>x\<bar>") auto
  have q: "0 < q" by (rule quotient_of_denom_pos[OF pq])
  have x: "\<bar>x\<bar> = of_int p / of_int q" by (rule quotient_of_div[OF pq])
  have "0 < \<bar>x\<bar>" using assms by simp
  then have p: "0 < p" using q unfolding x by (simp add: zero_less_divide_iff)
  define k where "k = bitlen p - bitlen q"
  have il: "ilog2 x = (if 2 powi k \<le> \<bar>x\<bar> then k else k - 1)"
    by (simp add: ilog2_def pq k_def Let_def)
  have qpos: "(0::rat) < of_int q" using q by simp
  have up: "\<bar>x\<bar> < 2 powi (k + 1)"
  proof -
    have "of_int p < (2::rat) powi (bitlen p)" by (rule bitlen_rat_bounds[OF p])
    also have "\<dots> = 2 powi (k + 1) * 2 powi (bitlen q - 1)"
      by (simp add: k_def flip: two_powi_add)
    also have "\<dots> \<le> 2 powi (k + 1) * of_int q"
      by (intro mult_left_mono bitlen_rat_bounds[OF q]) simp
    finally show ?thesis unfolding x using qpos by (simp add: pos_divide_less_eq)
  qed
  have lo: "2 powi (k - 1) \<le> \<bar>x\<bar>"
  proof -
    have "2 powi (k - 1) * (of_int q :: rat) \<le> 2 powi (k - 1) * 2 powi (bitlen q)"
      using bitlen_rat_bounds(2)[OF q] by (intro mult_left_mono) simp_all
    also have "\<dots> = 2 powi (bitlen p - 1)"
      by (simp add: k_def flip: two_powi_add)
    also have "\<dots> \<le> of_int p" by (rule bitlen_rat_bounds[OF p])
    finally show ?thesis unfolding x using qpos by (simp add: pos_le_divide_eq)
  qed
  show "2 powi (ilog2 x) \<le> \<bar>x\<bar>" using lo by (simp add: il)
  show "\<bar>x\<bar> < 2 powi (ilog2 x + 1)" using up by (auto simp add: il)
qed

lemma ilog2_less:
  assumes "x \<noteq> 0" "\<bar>x\<bar> < 2 powi k"
  shows "ilog2 x < k"
proof -
  have "(2::rat) powi (ilog2 x) < 2 powi k"
    using ilog2_bounds(1)[OF assms(1)] assms(2) by (rule le_less_trans)
  then show ?thesis by (rule two_powi_less_cancel)
qed


subsection \<open>Rounding: exact on floats, idempotent, half a spacing off at most\<close>

text \<open>
  Every number \<open>m * 2 powi e\<close> with \<open>\<bar>m\<bar> < 2 ^ 53\<close> and \<open>- 1074 \<le> e\<close> is a float, every
  float has this form, and \<open>rd\<close> maps into the floats.
\<close>

lemma round_half_even_of_int: "round_half_even (of_int n) = n"
  by (simp add: round_half_even_def)

lemma round_half_even_error: "\<bar>of_int (round_half_even y) - y\<bar> \<le> 1 / 2"
proof -
  have "of_int \<lfloor>y\<rfloor> \<le> y" "y < of_int \<lfloor>y\<rfloor> + 1" by linarith+
  then show ?thesis
    unfolding round_half_even_def Let_def by (auto simp: abs_le_iff)
qed

lemma round_half_even_cases:
  "round_half_even y = \<lfloor>y\<rfloor> \<or> round_half_even y = \<lfloor>y\<rfloor> + 1"
  by (simp add: round_half_even_def Let_def)

lemma round_half_even_bound:
  assumes "\<bar>y\<bar> \<le> of_int N"
  shows "\<bar>round_half_even y\<bar> \<le> N"
proof (cases "y = of_int N")
  case True
  moreover have "0 \<le> N" using assms by (metis abs_ge_zero of_int_0_le_iff order_trans)
  ultimately show ?thesis by (simp add: round_half_even_of_int)
next
  case False
  have "y \<le> of_int N" "- of_int N \<le> y" using assms by (simp_all add: abs_le_iff)
  with False have "y < of_int N" by simp
  then have "\<lfloor>y\<rfloor> < N" by (simp add: floor_less_iff)
  moreover have "- N \<le> \<lfloor>y\<rfloor>" using \<open>- of_int N \<le> y\<close> by (simp add: le_floor_iff)
  ultimately show ?thesis using round_half_even_cases[of y] by (auto simp: abs_le_iff)
qed

lemma qexp_lower: "- 1074 \<le> qexp x"
  by (simp add: qexp_def)

lemma qexp_ilog2: "ilog2 x - 52 \<le> qexp x"
  by (simp add: qexp_def)

lemma qexp_upper:
  assumes "x \<noteq> 0" "\<bar>x\<bar> < 2 powi k" "- 1021 \<le> k"
  shows "qexp x \<le> k - 53"
  using ilog2_less[OF assms(1,2)] assms(3) by (simp add: qexp_def)


lemma rd_exact:
  assumes "\<bar>m\<bar> < 2 ^ 53" "- 1074 \<le> e"
  shows "rd (of_int m * 2 powi e) = of_int m * 2 powi e"
proof (cases "m = 0")
  case True
  then show ?thesis by (simp add: rd_def)
next
  case False
  define x :: rat where "x = of_int m * 2 powi e"
  define q where "q = qexp x"
  have x0: "x \<noteq> 0" using False by (simp add: x_def)
  have "\<bar>x\<bar> = of_int \<bar>m\<bar> * 2 powi e"
    by (simp add: x_def abs_mult)
  also have "\<dots> < of_int (2 ^ 53) * 2 powi e"
    using assms(1) by (intro mult_strict_right_mono) (simp_all only: of_int_less_iff two_powi_pos)
  also have "\<dots> = 2 powi (53 + e)"
    by (simp add: two_powi_add)
  finally have "ilog2 x < 53 + e" by (rule ilog2_less[OF x0])
  then have q: "q \<le> e" using assms(2) by (simp add: qexp_def q_def)
  define d where "d = nat (e - q)"
  have "e = int d + q" using q by (simp add: d_def)
  then have pe: "(2::rat) powi e = 2 powi (int d) * 2 powi q"
    by (simp only: two_powi_add)
  have "x / 2 powi q = of_int (m * 2 ^ d)"
    by (simp add: x_def pe)
  then have "round_half_even (x / 2 powi q) = m * 2 ^ d"
    by (simp only: round_half_even_of_int)
  then have "rd x = of_int (m * 2 ^ d) * 2 powi q"
    using x0 by (simp add: rd_def q_def)
  also have "\<dots> = x" by (simp add: x_def pe)
  finally show ?thesis by (simp add: x_def)
qed

lemma rd_form:
  assumes "x \<noteq> 0"
  shows "\<exists>m. rd x = of_int m * 2 powi qexp x \<and> \<bar>m\<bar> \<le> 2 ^ 53"
proof -
  define y where "y = x / 2 powi qexp x"
  have "\<bar>y\<bar> = \<bar>x\<bar> / 2 powi qexp x" by (simp add: y_def abs_divide)
  also have "\<dots> \<le> 2 powi (ilog2 x + 1) / 2 powi qexp x"
    using ilog2_bounds(2)[OF assms] by (intro divide_right_mono) simp_all
  also have "\<dots> = 2 powi (ilog2 x + 1 - qexp x)" by (simp add: two_powi_diff)
  also have "\<dots> \<le> 2 powi 53"
    using qexp_ilog2[of x] by (intro two_powi_mono) simp
  also have "\<dots> = of_int (2 ^ 53)" by simp
  finally have "\<bar>round_half_even y\<bar> \<le> 2 ^ 53" by (rule round_half_even_bound)
  moreover have "rd x = of_int (round_half_even y) * 2 powi qexp x"
    using assms by (simp add: rd_def y_def)
  ultimately show ?thesis by blast
qed

lemma double_form_aux:
  fixes x :: rat
  assumes "x = of_int m * 2 powi e" "\<bar>m\<bar> \<le> 2 ^ 53" "- 1074 \<le> e"
  shows "\<exists>m' e'. x = of_int m' * 2 powi e' \<and> \<bar>m'\<bar> < 2 ^ 53 \<and> - 1074 \<le> e'"
proof (cases "\<bar>m\<bar> < 2 ^ 53")
  case True
  with assms show ?thesis by blast
next
  case False
  with assms(2) have "\<bar>m\<bar> = 2 ^ 53" by simp
  then have "m = sgn m * 2 ^ 53" "\<bar>sgn m\<bar> < 2 ^ 53"
    by (auto simp: abs_if sgn_if split: if_splits)
  moreover have "x = of_int (sgn m) * 2 powi (e + 53)"
    by (subst assms(1), subst calculation(1)) (simp add: two_powi_add)
  ultimately show ?thesis using assms(3)
    by (intro exI[of _ "sgn m"] exI[of _ "e + 53"]) simp
qed

lemma rd_double_form:
  "\<exists>m e. rd x = of_int m * 2 powi e \<and> \<bar>m\<bar> < 2 ^ 53 \<and> - 1074 \<le> e"
proof (cases "x = 0")
  case True
  then show ?thesis by (intro exI[of _ 0]) (auto simp: rd_def)
next
  case False
  from rd_form[OF False] obtain m where "rd x = of_int m * 2 powi qexp x" "\<bar>m\<bar> \<le> 2 ^ 53"
    by blast
  then show ?thesis using qexp_lower[of x] by (rule double_form_aux)
qed

lemma rd_idem: "rd (rd x) = rd x"
proof -
  obtain m e where "rd x = of_int m * 2 powi e" "\<bar>m\<bar> < 2 ^ 53" "- 1074 \<le> e"
    using rd_double_form by blast
  then show ?thesis using rd_exact[of m e] by simp
qed

lemma is_double_rd: "is_double (rd x)"
  by (simp add: is_double_def rd_idem)

lemma is_double_form:
  assumes "is_double x"
  shows "\<exists>m e. x = of_int m * 2 powi e \<and> \<bar>m\<bar> < 2 ^ 53 \<and> - 1074 \<le> e"
  using rd_double_form[of x] assms by (simp add: is_double_def)

lemma is_doubleI:
  assumes "x = of_int m * 2 powi e" "\<bar>m\<bar> < 2 ^ 53" "- 1074 \<le> e"
  shows "is_double x"
  unfolding is_double_def assms(1) by (rule rd_exact[OF assms(2,3)])

lemma rd_error:
  "\<bar>rd x - x\<bar> \<le> 2 powi qexp x / 2"
proof (cases "x = 0")
  case True
  then show ?thesis by (simp add: rd_def)
next
  case False
  define y where "y = x / 2 powi qexp x"
  have x: "x = y * 2 powi qexp x" by (simp add: y_def)
  have "rd x - x = (of_int (round_half_even y) - y) * 2 powi qexp x"
    using False by (simp add: rd_def y_def algebra_simps)
  then have "\<bar>rd x - x\<bar> = \<bar>of_int (round_half_even y) - y\<bar> * 2 powi qexp x"
    by (simp add: abs_mult)
  also have "\<dots> \<le> 1 / 2 * 2 powi qexp x"
    by (intro mult_right_mono round_half_even_error) simp
  finally show ?thesis by simp
qed

lemma rd_error_bound:
  assumes "\<bar>x\<bar> < 2 powi k" "- 1021 \<le> k"
  shows "\<bar>rd x - x\<bar> \<le> 2 powi (k - 54)"
proof (cases "x = 0")
  case True
  then show ?thesis by (simp add: rd_def)
next
  case False
  have "\<bar>rd x - x\<bar> \<le> 2 powi qexp x / 2" by (rule rd_error)
  also have "\<dots> \<le> 2 powi (k - 53) / 2"
    using qexp_upper[OF False assms] by (intro divide_right_mono two_powi_mono) simp_all
  also have "\<dots> = 2 powi (k - 54)"
    using two_powi_Suc[of "k - 54"] by simp
  finally show ?thesis .
qed

subsection \<open>Floor and fractional part of a float; the steps of the encoder are exact\<close>

lemma is_double_of_int:
  assumes "\<bar>n\<bar> < 2 ^ 53"
  shows "is_double (of_int n)"
  using is_doubleI[of "of_int n" n 0] assms by simp

lemma float_of_int_exact:
  assumes "\<bar>n\<bar> < 2 ^ 53"
  shows "float_of_int n = of_int n"
  using is_double_of_int[OF assms] by (simp add: float_of_int_def is_double_def)

lemma is_double_scale:
  assumes "is_double x" "0 \<le> k"
  shows "is_double (x * 2 powi k)"
proof -
  obtain m e where x: "x = of_int m * 2 powi e" "\<bar>m\<bar> < 2 ^ 53" "- 1074 \<le> e"
    using is_double_form[OF assms(1)] by blast
  have "x * 2 powi k = of_int m * 2 powi (e + k)"
    by (simp add: x(1) two_powi_add)
  then show ?thesis using x(2,3) assms(2) by (intro is_doubleI[of _ m "e + k"]) simp_all
qed

lemma floor_scaled:
  fixes m :: int
  assumes "0 \<le> m" "0 \<le> d"
  shows "\<lfloor>(of_int m :: rat) * 2 powi (- d)\<rfloor> = m div 2 ^ nat d"
proof -
  have "(of_int m :: rat) * 2 powi (- d) = of_int m / of_int (2 ^ nat d)"
    using assms(2) by (simp add: power_int_minus field_simps power_int_nonneg_exp)
  then show ?thesis by (simp only: floor_divide_of_int_eq)
qed

lemma double_floor_frac:
  assumes "is_double x" "0 \<le> x"
  shows "is_double (of_int \<lfloor>x\<rfloor>)" "is_double (x - of_int \<lfloor>x\<rfloor>)"
proof -
  obtain m e where x: "x = of_int m * 2 powi e" "\<bar>m\<bar> < 2 ^ 53" "- 1074 \<le> e"
    using is_double_form[OF assms(1)] by blast
  have m0: "0 \<le> m"
  proof (rule ccontr)
    assume "\<not> 0 \<le> m"
    then have "(of_int m :: rat) < 0" by simp
    then have "x < 0" unfolding x(1) by (simp add: mult_neg_pos)
    with assms(2) show False by simp
  qed
  show "is_double (of_int \<lfloor>x\<rfloor>)" "is_double (x - of_int \<lfloor>x\<rfloor>)"
  proof -
    consider (nonneg) "0 \<le> e" | (neg) "e < 0" by linarith
    then have "is_double (of_int \<lfloor>x\<rfloor>) \<and> is_double (x - of_int \<lfloor>x\<rfloor>)"
    proof cases
      case nonneg
      then have "x = of_int (m * 2 ^ nat e)"
        by (simp add: x(1) power_int_nonneg_exp)
      then have fl: "of_int \<lfloor>x\<rfloor> = x" by (metis floor_of_int)
      have "is_double (0::rat)" by (simp add: is_double_def rd_def)
      then show ?thesis unfolding fl using assms(1) by simp
    next
      case neg
      define d where "d = - e"
      have d: "0 < d" "e = - d" using neg by (simp_all add: d_def)
      have fl: "\<lfloor>x\<rfloor> = m div 2 ^ nat d"
        unfolding x(1) d(2) using m0 d(1) by (intro floor_scaled) simp_all
      have "m div 2 ^ nat d \<le> m div 1" using m0 by (intro zdiv_mono2) simp_all
      then have "m div 2 ^ nat d \<le> m" by simp
      moreover have "0 \<le> m div 2 ^ nat d" using m0 by (simp add: pos_imp_zdiv_nonneg_iff)
      ultimately have 1: "is_double (of_int \<lfloor>x\<rfloor>)"
        unfolding fl using x(2) by (intro is_double_of_int) simp
      have "m = m div 2 ^ nat d * 2 ^ nat d + m mod 2 ^ nat d"
        by (rule div_mult_mod_eq[symmetric])
      then have "(of_int m :: rat) = of_int (m div 2 ^ nat d) * of_int (2 ^ nat d) + of_int (m mod 2 ^ nat d)"
        by (metis of_int_add of_int_mult)
      moreover have "(of_int (2 ^ nat d) :: rat) * 2 powi e = 1"
        using d by (simp add: power_int_minus power_int_nonneg_exp)
      ultimately have "x = of_int (m div 2 ^ nat d) + of_int (m mod 2 ^ nat d) * 2 powi e"
        unfolding x(1) by (simp add: algebra_simps)
      then have fr: "x - of_int \<lfloor>x\<rfloor> = of_int (m mod 2 ^ nat d) * 2 powi e"
        unfolding fl by simp
      have "0 \<le> m mod 2 ^ nat d" "m mod 2 ^ nat d \<le> m"
        using m0 by (simp_all add: zmod_le_nonneg_dividend)
      then have "\<bar>m mod 2 ^ nat d\<bar> < 2 ^ 53" using x(2) by simp
      then have 2: "is_double (x - of_int \<lfloor>x\<rfloor>)"
        unfolding fr using x(3) by (intro is_doubleI[of _ "m mod 2 ^ nat d" e]) simp_all
      from 1 2 show ?thesis by simp
    qed
    then show "is_double (of_int \<lfloor>x\<rfloor>)" "is_double (x - of_int \<lfloor>x\<rfloor>)" by simp_all
  qed
qed

lemma offset_value: "get_ntp_timestamp_offset = - 2208988800"
  by code_simp

lemma two_32: "float_of_int (2 ^ 32) = 2 ^ 32"
  using float_of_int_exact[of "2 ^ 32"] by simp

lemma encode_floor:
  assumes "0 \<le> fsub t get_ntp_timestamp_offset"
  defines "n \<equiv> fsub t get_ntp_timestamp_offset"
  shows "encode_ntp_timestamp t = (\<lfloor>n\<rfloor>, \<lfloor>(n - of_int \<lfloor>n\<rfloor>) * 2 ^ 32\<rfloor>)"
proof -
  have dn: "is_double n" unfolding n_def fsub_def by (rule is_double_rd)
  have n0: "0 \<le> n" using assms(1) by (simp add: n_def)
  have s: "int_of_float n = \<lfloor>n\<rfloor>" using n0 by (simp add: int_of_float_def)
  have fs: "float_of_int \<lfloor>n\<rfloor> = of_int \<lfloor>n\<rfloor>"
    using double_floor_frac(1)[OF dn n0] by (simp add: float_of_int_def is_double_def)
  have fr: "fsub n (of_int \<lfloor>n\<rfloor>) = n - of_int \<lfloor>n\<rfloor>"
    using double_floor_frac(2)[OF dn n0] by (simp add: fsub_def is_double_def)
  have "is_double ((n - of_int \<lfloor>n\<rfloor>) * 2 powi 32)"
    by (intro is_double_scale double_floor_frac(2)[OF dn n0]) simp
  then have ml: "fmul (n - of_int \<lfloor>n\<rfloor>) (2 ^ 32) = (n - of_int \<lfloor>n\<rfloor>) * 2 ^ 32"
    by (simp add: fmul_def is_double_def)
  have "0 \<le> (n - of_int \<lfloor>n\<rfloor>) * 2 ^ 32" by (simp add: of_int_floor_le)
  then have f: "int_of_float ((n - of_int \<lfloor>n\<rfloor>) * 2 ^ 32) = \<lfloor>(n - of_int \<lfloor>n\<rfloor>) * 2 ^ 32\<rfloor>"
    by (simp add: int_of_float_def)
  show ?thesis
    unfolding encode_ntp_timestamp_def Let_def n_def[symmetric] s fs fr two_32 ml f ..
qed

subsection \<open>Sign and magnitude of a rounded number\<close>

lemma round_half_even_nonneg: "0 \<le> y \<Longrightarrow> 0 \<le> round_half_even y"
  using round_half_even_cases[of y] by (auto simp: zero_le_floor)

lemma rd_nonneg:
  assumes "0 \<le> x"
  shows "0 \<le> rd x"
proof (cases "x = 0")
  case True
  then show ?thesis by (simp add: rd_def)
next
  case False
  have "0 \<le> x / 2 powi qexp x" using assms by simp
  then have "0 \<le> round_half_even (x / 2 powi qexp x)" by (rule round_half_even_nonneg)
  then show ?thesis using False by (simp add: rd_def)
qed

lemma ilog2_le:
  assumes "x \<noteq> 0" "\<bar>x\<bar> \<le> 2 powi k"
  shows "ilog2 x \<le> k"
proof -
  have "(2::rat) powi (ilog2 x) \<le> 2 powi k"
    using ilog2_bounds(1)[OF assms(1)] assms(2) by (rule order_trans)
  also have "\<dots> < 2 powi (k + 1)" by (simp add: two_powi_Suc)
  finally have "ilog2 x < k + 1" by (rule two_powi_less_cancel)
  then show ?thesis by simp
qed

lemma rd_abs_le:
  assumes "\<bar>x\<bar> \<le> 2 powi k" "- 1022 \<le> k"
  shows "\<bar>rd x\<bar> \<le> 2 powi k"
proof (cases "x = 0")
  case True
  then show ?thesis by (simp add: rd_def)
next
  case False
  define q where "q = qexp x"
  have q: "q \<le> k" using ilog2_le[OF False assms(1)] assms(2) by (simp add: q_def qexp_def)
  define d where "d = nat (k - q)"
  have "k = int d + q" using q by (simp add: d_def)
  then have pk: "(2::rat) powi k = 2 powi (int d) * 2 powi q"
    by (simp only: two_powi_add)
  have "\<bar>x / 2 powi q\<bar> = \<bar>x\<bar> / 2 powi q" by (simp add: abs_divide)
  also have "\<dots> \<le> 2 powi k / 2 powi q"
    using assms(1) by (intro divide_right_mono) simp_all
  also have "\<dots> = of_int (2 ^ d)" by (simp add: pk)
  finally have "\<bar>round_half_even (x / 2 powi q)\<bar> \<le> 2 ^ d" by (rule round_half_even_bound)
  then have "(of_int \<bar>round_half_even (x / 2 powi q)\<bar> :: rat) \<le> of_int (2 ^ d)"
    by (simp only: of_int_le_iff)
  then have "\<bar>of_int (round_half_even (x / 2 powi q)) :: rat\<bar> * 2 powi q \<le> of_int (2 ^ d) * 2 powi q"
    by (intro mult_right_mono) simp_all
  moreover have "\<bar>rd x\<bar> = \<bar>of_int (round_half_even (x / 2 powi q)) :: rat\<bar> * 2 powi q"
    using False by (simp add: rd_def q_def abs_mult)
  ultimately show ?thesis by (simp add: pk)
qed

lemma is_double_grid:
  assumes "\<bar>M\<bar> < 2 ^ 53" "j \<le> 1074"
  shows "is_double (of_int M / 2 ^ j)"
proof -
  have "(of_int M :: rat) / 2 ^ j = of_int M * 2 powi (- int j)"
    by (simp add: power_int_minus field_simps)
  then show ?thesis using assms by (intro is_doubleI[of _ M "- int j"]) simp_all
qed

lemma rd_grid:
  assumes "\<bar>M\<bar> < 2 ^ 53" "j \<le> 1074"
  shows "rd (of_int M / 2 ^ j) = of_int M / 2 ^ j"
  using is_double_grid[OF assms] by (simp add: is_double_def)

subsection \<open>Encoding, then decoding\<close>

lemma frac_scaled_bounds:
  fixes n :: rat
  shows "0 \<le> \<lfloor>(n - of_int \<lfloor>n\<rfloor>) * 2 ^ 32\<rfloor>" "\<lfloor>(n - of_int \<lfloor>n\<rfloor>) * 2 ^ 32\<rfloor> < 2 ^ 32"
proof -
  have f: "0 \<le> n - of_int \<lfloor>n\<rfloor>" "n - of_int \<lfloor>n\<rfloor> < 1" by linarith+
  then have "0 \<le> (n - of_int \<lfloor>n\<rfloor>) * 2 ^ 32" by simp
  then show "0 \<le> \<lfloor>(n - of_int \<lfloor>n\<rfloor>) * 2 ^ 32\<rfloor>" by simp
  have "(n - of_int \<lfloor>n\<rfloor>) * 2 ^ 32 < 1 * 2 ^ 32"
    using f(2) by (intro mult_strict_right_mono) simp_all
  then have "(n - of_int \<lfloor>n\<rfloor>) * 2 ^ 32 < of_int (2 ^ 32)" by simp
  then show "\<lfloor>(n - of_int \<lfloor>n\<rfloor>) * 2 ^ 32\<rfloor> < 2 ^ 32" by (simp only: floor_less_iff)
qed

lemma truncation_gap:
  fixes n :: rat
  defines "s \<equiv> \<lfloor>n\<rfloor>"
  defines "f \<equiv> \<lfloor>(n - of_int \<lfloor>n\<rfloor>) * 2 ^ 32\<rfloor>"
  shows "of_int s + of_int f / 2 ^ 32 \<le> n" "n - (of_int s + of_int f / 2 ^ 32) < 1 / 2 ^ 32"
proof -
  define u where "u = (n - of_int s) * 2 ^ 32"
  have f: "of_int f \<le> u" "u < of_int f + 1"
    unfolding f_def u_def s_def by linarith+
  have n: "n = of_int s + u / 2 ^ 32" by (simp add: u_def field_simps)
  have "of_int f / 2 ^ 32 \<le> u / (2 ^ 32 :: rat)"
    using f(1) by (intro divide_right_mono) simp_all
  then show "of_int s + of_int f / 2 ^ 32 \<le> n"
    using n by linarith
  have "u / 2 ^ 32 < (of_int f + 1) / (2 ^ 32 :: rat)"
    using f(2) by (intro divide_strict_right_mono) simp_all
  also have "\<dots> = of_int f / 2 ^ 32 + 1 / 2 ^ 32" by (simp add: add_divide_distrib)
  finally show "n - (of_int s + of_int f / 2 ^ 32) < 1 / 2 ^ 32"
    using n by linarith
qed

lemma encode_sum_double:
  assumes "is_double n" "0 \<le> n"
  shows "is_double (of_int \<lfloor>n\<rfloor> + of_int \<lfloor>(n - of_int \<lfloor>n\<rfloor>) * 2 ^ 32\<rfloor> / 2 ^ 32)"
proof -
  define s where "s = \<lfloor>n\<rfloor>"
  define f where "f = \<lfloor>(n - of_int s) * 2 ^ 32\<rfloor>"
  obtain m e where n: "n = of_int m * 2 powi e" "\<bar>m\<bar> < 2 ^ 53" "- 1074 \<le> e"
    using is_double_form[OF assms(1)] by blast
  have s0: "0 \<le> s" using assms(2) by (simp add: s_def)
  have fb: "0 \<le> f" "f < 2 ^ 32"
    using frac_scaled_bounds[of n] by (simp_all add: f_def s_def)
  consider (coarse) "- 32 \<le> e" | (fine) "e < - 32" by linarith
  then have "is_double (of_int s + of_int f / 2 ^ 32)"
  proof cases
    case coarse
    define d where "d = nat (e + 32)"
    have "e + 32 = int d" using coarse by (simp add: d_def)
    then have "(2::rat) powi (e + 32) = 2 ^ d" by simp
    then have "n * 2 ^ 32 = of_int (m * 2 ^ d)"
      by (simp add: n(1) two_powi_add)
    then have "(n - of_int s) * 2 ^ 32 = of_int (m * 2 ^ d - s * 2 ^ 32)"
      by (simp add: algebra_simps)
    then have "of_int f = (n - of_int s) * 2 ^ 32"
      unfolding f_def by (simp only: floor_of_int)
    then have "of_int s + of_int f / 2 ^ 32 = n" by (simp add: field_simps)
    with assms(1) show ?thesis by simp
  next
    case fine
    have "\<bar>n\<bar> = of_int \<bar>m\<bar> * 2 powi e" by (simp add: n(1) abs_mult)
    also have "\<dots> < of_int (2 ^ 53) * 2 powi e"
      using n(2) by (intro mult_strict_right_mono) (simp_all only: of_int_less_iff two_powi_pos)
    also have "\<dots> \<le> of_int (2 ^ 53) * 2 powi (- 33)"
      using fine by (intro mult_left_mono two_powi_mono) simp_all
    also have "\<dots> = of_int (2 ^ 20)" by (simp add: power_int_minus)
    finally have "n < of_int (2 ^ 20)" by simp
    then have "s < 2 ^ 20" unfolding s_def by (simp only: floor_less_iff)
    then have "s * 2 ^ 32 + f < 2 ^ 53" using fb(2) by simp
    then have "\<bar>s * 2 ^ 32 + f\<bar> < 2 ^ 53" using s0 fb(1) by simp
    then have d: "is_double (of_int (s * 2 ^ 32 + f) / 2 ^ 32)"
      by (intro is_double_grid) simp_all
    have eq: "(of_int (s * 2 ^ 32 + f) :: rat) / 2 ^ 32 = of_int s + of_int f / 2 ^ 32"
      by (simp add: add_divide_distrib)
    show ?thesis using d unfolding eq .
  qed
  then show ?thesis by (simp add: s_def f_def)
qed

lemma decode_of_encoded:
  assumes "is_double n" "0 \<le> n"
  defines "s \<equiv> \<lfloor>n\<rfloor>"
  defines "f \<equiv> \<lfloor>(n - of_int \<lfloor>n\<rfloor>) * 2 ^ 32\<rfloor>"
  shows "decode_ntp_timestamp s f = rd (of_int s + of_int f / 2 ^ 32 + get_ntp_timestamp_offset)"
proof -
  have 1: "float_of_int s = of_int s"
    using double_floor_frac(1)[OF assms(1,2)] by (simp add: float_of_int_def is_double_def s_def)
  have fb: "\<bar>f\<bar> < 2 ^ 53"
    using frac_scaled_bounds[of n] by (simp add: f_def)
  have 2: "int_truediv f (2 ^ 32) = of_int f / 2 ^ 32"
    using rd_grid[OF fb, of 32] by (simp add: int_truediv_def)
  have 3: "fadd (of_int s) (of_int f / 2 ^ 32) = of_int s + of_int f / 2 ^ 32"
    using encode_sum_double[OF assms(1,2)] by (simp add: fadd_def is_double_def s_def f_def)
  show ?thesis
    unfolding decode_ntp_timestamp_def Let_def 1 2 3 by (simp add: fadd_def)
qed

lemma three_errors:
  fixes a b c z e d :: rat
  assumes "z = a + b + c" "\<bar>a\<bar> \<le> e" "\<bar>b\<bar> < d" "\<bar>c\<bar> \<le> e"
  shows "\<bar>z\<bar> \<le> 2 * e + d"
  using assms by linarith

lemma roundtrip_bound:
  assumes "is_double t" "0 \<le> t - get_ntp_timestamp_offset" "t - get_ntp_timestamp_offset < 2 ^ 32"
  shows "\<bar>roundtrip_timestamp t - t\<bar> \<le> 1 / 2 ^ 21 + 1 / 2 ^ 32"
proof -
  define x where "x = t - get_ntp_timestamp_offset"
  define n where "n = rd x"
  define s where "s = \<lfloor>n\<rfloor>"
  define f where "f = \<lfloor>(n - of_int \<lfloor>n\<rfloor>) * 2 ^ 32\<rfloor>"
  define y :: rat where "y = of_int s + of_int f / 2 ^ 32"
  have x: "0 \<le> x" "x < 2 ^ 32" using assms(2,3) by (simp_all add: x_def)
  then have ax: "\<bar>x\<bar> < 2 powi 32" by simp
  have e1: "\<bar>n - x\<bar> \<le> 1 / 2 ^ 22"
    using rd_error_bound[OF ax] by (simp add: n_def power_int_minus field_simps)
  have n0: "0 \<le> n" unfolding n_def by (rule rd_nonneg[OF x(1)])
  have dn: "is_double n" unfolding n_def by (rule is_double_rd)
  have "\<bar>n\<bar> \<le> 2 powi 32" unfolding n_def using ax by (intro rd_abs_le) simp_all
  then have n32: "n \<le> 2 ^ 32" by simp
  have nf: "n = fsub t get_ntp_timestamp_offset" by (simp add: n_def x_def fsub_def)
  have enc: "encode_ntp_timestamp t = (s, f)"
    using encode_floor[of t] n0 unfolding nf s_def f_def by simp
  have gap: "y \<le> n" "n - y < 1 / 2 ^ 32"
    using truncation_gap[of n] by (simp_all add: y_def s_def f_def)
  have "0 \<le> s" using n0 by (simp add: s_def)
  moreover have "0 \<le> f" using frac_scaled_bounds(1)[of n] by (simp add: f_def)
  ultimately have y0: "0 \<le> y" by (simp add: y_def)
  have off: "get_ntp_timestamp_offset = - 2208988800" by (rule offset_value)
  have "\<bar>y + get_ntp_timestamp_offset\<bar> < 2 powi 32"
    using y0 gap(1) n32 by (simp add: off abs_less_iff)
  then have e3: "\<bar>rd (y + get_ntp_timestamp_offset) - (y + get_ntp_timestamp_offset)\<bar> \<le> 1 / 2 ^ 22"
    using rd_error_bound[of "y + get_ntp_timestamp_offset" 32] by (simp add: power_int_minus field_simps)
  have "roundtrip_timestamp t = rd (y + get_ntp_timestamp_offset)"
    using decode_of_encoded[OF dn n0] by (simp add: roundtrip_timestamp_def enc y_def s_def f_def)
  moreover have "t = x + get_ntp_timestamp_offset" by (simp add: x_def)
  ultimately have "roundtrip_timestamp t - t =
      (rd (y + get_ntp_timestamp_offset) - (y + get_ntp_timestamp_offset)) + (y - n) + (n - x)"
    by simp
  moreover have "\<bar>y - n\<bar> < 1 / 2 ^ 32" using gap by (simp add: abs_less_iff)
  ultimately have "\<bar>roundtrip_timestamp t - t\<bar> \<le> 2 * (1 / 2 ^ 22) + 1 / 2 ^ 32"
    using e3 e1 by (intro three_errors)
  then show ?thesis by simp
qed

subsection \<open>The chain of roundings in the offset\<close>

lemma rd_err:
  assumes "\<bar>x\<bar> < B" "B \<le> 2 powi k" "- 1021 \<le> k"
  shows "\<bar>rd x - x\<bar> \<le> 2 powi (k - 54)"
  using rd_error_bound[of x k] assms by simp

lemma compute_offset_unfold:
  assumes "\<bar>c\<bar> < 2 ^ 32" "\<bar>d\<bar> < 2 ^ 32" "\<bar>a\<bar> < 2 ^ 32" "\<bar>b\<bar> < 2 ^ 32"
  shows "fdiv (fadd (fadd (fadd (float_of_int a) (int_truediv c (2 ^ 32))) (float_of_int b))
                (int_truediv d (2 ^ 32))) (float_of_int 2)
       = rd (rd (rd (rd (of_int a + of_int c / 2 ^ 32) + of_int b) + of_int d / 2 ^ 32) / 2)"
proof -
  have c: "int_truediv c (2 ^ 32) = of_int c / 2 ^ 32"
    using rd_grid[of c 32] assms(1) by (simp add: int_truediv_def)
  have d: "int_truediv d (2 ^ 32) = of_int d / 2 ^ 32"
    using rd_grid[of d 32] assms(2) by (simp add: int_truediv_def)
  have a: "float_of_int a = of_int a" using assms(3) by (intro float_of_int_exact) simp
  have b: "float_of_int b = of_int b" using assms(4) by (intro float_of_int_exact) simp
  have t: "float_of_int 2 = 2" using float_of_int_exact[of 2] by simp
  show ?thesis unfolding a b c d t fadd_def fdiv_def ..
qed

lemma frac_abs: "\<bar>c\<bar> < 2 ^ 32 \<Longrightarrow> \<bar>(of_int c :: rat) / 2 ^ 32\<bar> < 1"
proof -
  assume "\<bar>c\<bar> < 2 ^ 32"
  then have "(of_int \<bar>c\<bar> :: rat) < of_int (2 ^ 32)" by (simp only: of_int_less_iff)
  then show ?thesis by (simp add: abs_divide)
qed

lemma int_abs_rat: "\<bar>a\<bar> < 2 ^ 32 \<Longrightarrow> \<bar>of_int a :: rat\<bar> \<le> 4294967295"
proof -
  assume "\<bar>a\<bar> < 2 ^ 32"
  then have "\<bar>a\<bar> \<le> 4294967295" by simp
  then have "(of_int \<bar>a\<bar> :: rat) \<le> of_int 4294967295" by (simp only: of_int_le_iff)
  then show ?thesis by simp
qed

lemma four_errors:
  fixes x1 x2 x3 r u B D p q :: rat
  assumes "\<bar>x1 - u\<bar> \<le> p" "\<bar>x2 - (x1 + B)\<bar> \<le> q" "\<bar>x3 - (x2 + D)\<bar> \<le> q"
    "\<bar>r - x3 / 2\<bar> \<le> p"
  shows "\<bar>r - (u + (B + D)) / 2\<bar> \<le> p + (p + 2 * q) / 2"
proof -
  define h where "h = x3 / 2"
  define v where "v = (u + (B + D)) / 2"
  define w where "w = (p + 2 * q) / 2"
  have x3: "x3 = 2 * h" by (simp add: h_def)
  have v: "u + (B + D) = 2 * v" by (simp add: v_def)
  have w: "p + 2 * q = 2 * w" by (simp add: w_def)
  have 1: "x1 - u \<le> p" "u - x1 \<le> p" using assms(1) by (simp_all add: abs_le_iff)
  have 2: "x2 - (x1 + B) \<le> q" "(x1 + B) - x2 \<le> q" using assms(2) by (simp_all add: abs_le_iff)
  have 3: "2 * h - (x2 + D) \<le> q" "(x2 + D) - 2 * h \<le> q"
    using assms(3) unfolding x3 by (simp_all add: abs_le_iff)
  have 4: "r - h \<le> p" "h - r \<le> p" using assms(4) unfolding h_def by (simp_all add: abs_le_iff)
  have "r - v \<le> p + w"
    using 1 2 3 4 v w by linarith
  moreover have "v - r \<le> p + w"
    using 1 2 3 4 v w by linarith
  ultimately show ?thesis unfolding v_def w_def by (simp add: abs_le_iff)
qed

lemma offset_chain_error:
  fixes a b c d :: int
  assumes "\<bar>c\<bar> < 2 ^ 32" "\<bar>d\<bar> < 2 ^ 32" "\<bar>a\<bar> < 2 ^ 32" "\<bar>b\<bar> < 2 ^ 32"
  shows "\<bar>rd (rd (rd (rd (of_int a + of_int c / 2 ^ 32) + of_int b) + of_int d / 2 ^ 32) / 2)
          - ((of_int a + of_int c / 2 ^ 32) + (of_int b + of_int d / 2 ^ 32)) / 2\<bar> \<le> 7 / 2 ^ 22"
proof -
  define A :: rat where "A = of_int a"
  define B :: rat where "B = of_int b"
  define C :: rat where "C = of_int c / 2 ^ 32"
  define D :: rat where "D = of_int d / 2 ^ 32"
  define x1 where "x1 = rd (A + C)"
  define x2 where "x2 = rd (x1 + B)"
  define x3 where "x3 = rd (x2 + D)"
  define r where "r = rd (x3 / 2)"
  have A: "\<bar>A\<bar> \<le> 4294967295" and B: "\<bar>B\<bar> \<le> 4294967295"
    using assms(3,4) by (simp_all add: A_def B_def int_abs_rat)
  have C: "\<bar>C\<bar> < 1" and D: "\<bar>D\<bar> < 1"
    using assms(1,2) by (simp_all add: C_def D_def frac_abs)
  have "\<bar>A + C\<bar> < 4294967296" using A C by linarith
  then have "\<bar>x1 - (A + C)\<bar> \<le> 2 powi (33 - 54)"
    unfolding x1_def by (rule rd_err) simp_all
  then have e1: "\<bar>x1 - (A + C)\<bar> \<le> 1 / 2097152" by (simp add: power_int_minus)
  have "\<bar>x1 + B\<bar> < 8589934593" using e1 A B C by linarith
  then have "\<bar>x2 - (x1 + B)\<bar> \<le> 2 powi (34 - 54)"
    unfolding x2_def by (rule rd_err) simp_all
  then have e2: "\<bar>x2 - (x1 + B)\<bar> \<le> 1 / 1048576" by (simp add: power_int_minus)
  have "\<bar>x2 + D\<bar> < 8589934595" using e1 e2 A B C D by linarith
  then have "\<bar>x3 - (x2 + D)\<bar> \<le> 2 powi (34 - 54)"
    unfolding x3_def by (rule rd_err) simp_all
  then have e3: "\<bar>x3 - (x2 + D)\<bar> \<le> 1 / 1048576" by (simp add: power_int_minus)
  have "\<bar>x3 / 2\<bar> < 4294967298" using e1 e2 e3 A B C D by linarith
  then have "\<bar>r - x3 / 2\<bar> \<le> 2 powi (33 - 54)"
    unfolding r_def by (rule rd_err) simp_all
  then have e4: "\<bar>r - x3 / 2\<bar> \<le> 1 / 2097152" by (simp add: power_int_minus)
  have "\<bar>r - ((A + C) + (B + D)) / 2\<bar> \<le> 1 / 2097152 + (1 / 2097152 + 2 * (1 / 1048576)) / 2"
    using e1 e2 e3 e4 by (rule four_errors)
  then have "\<bar>r - ((A + C) + (B + D)) / 2\<bar> \<le> 7 / 4194304" by simp
  then show ?thesis
    by (simp add: r_def x3_def x2_def x1_def A_def B_def C_def D_def)
qed

lemma offset_chain_exact:
  fixes a b c d :: int
  assumes "\<bar>c\<bar> < 2 ^ 32" "\<bar>d\<bar> < 2 ^ 32" "\<bar>a\<bar> < 2 ^ 20" "\<bar>b\<bar> < 2 ^ 20"
  shows "rd (rd (rd (rd (of_int a + of_int c / 2 ^ 32) + of_int b) + of_int d / 2 ^ 32) / 2)
          = ((of_int a + of_int c / 2 ^ 32) + (of_int b + of_int d / 2 ^ 32)) / 2"
proof -
  define M1 where "M1 = a * 2 ^ 32 + c"
  define M2 where "M2 = (a + b) * 2 ^ 32 + c"
  define M3 where "M3 = (a + b) * 2 ^ 32 + c + d"
  have m: "\<bar>M1\<bar> < 2 ^ 53" "\<bar>M2\<bar> < 2 ^ 53" "\<bar>M3\<bar> < 2 ^ 53"
    using assms by (simp_all add: M1_def M2_def M3_def abs_less_iff)
  have g1: "rd (of_int M1 / 2 ^ 32) = of_int M1 / 2 ^ 32"
    and g2: "rd (of_int M2 / 2 ^ 32) = of_int M2 / 2 ^ 32"
    and g3: "rd (of_int M3 / 2 ^ 32) = of_int M3 / 2 ^ 32"
    and g4: "rd (of_int M3 / 2 ^ 33) = of_int M3 / 2 ^ 33"
    by (rule rd_grid, rule m, simp)+
  have e1: "of_int a + of_int c / 2 ^ 32 = (of_int M1 :: rat) / 2 ^ 32"
    by (simp add: M1_def add_divide_distrib)
  have e2: "(of_int M1 :: rat) / 2 ^ 32 + of_int b = of_int M2 / 2 ^ 32"
    by (simp add: M1_def M2_def add_divide_distrib algebra_simps)
  have e3: "(of_int M2 :: rat) / 2 ^ 32 + of_int d / 2 ^ 32 = of_int M3 / 2 ^ 32"
    by (simp add: M2_def M3_def add_divide_distrib)
  have e4: "(of_int M3 :: rat) / 2 ^ 32 / 2 = of_int M3 / 2 ^ 33"
    by simp
  have e5: "((of_int a + of_int c / 2 ^ 32) + (of_int b + of_int d / 2 ^ 32)) / 2
      = (of_int M3 :: rat) / 2 ^ 33"
    by (simp add: M3_def add_divide_distrib algebra_simps)
  show ?thesis
    unfolding e5 unfolding e1 g1 e2 g2 e3 g3 e4 g4 ..
qed

lemma u32_diff: "u32 v \<Longrightarrow> u32 w \<Longrightarrow> \<bar>v - w\<bar> < 2 ^ 32"
  by (auto simp: u32_def abs_less_iff)

lemma decode_error:
  assumes "u32 s" "u32 f"
  shows "\<bar>decode_ntp_timestamp s f - (of_int s + of_int f / 2 ^ 32 + get_ntp_timestamp_offset)\<bar>
         \<le> 1 / 2 ^ 21"
proof -
  define y :: rat where "y = of_int s + of_int f / 2 ^ 32"
  have s: "0 \<le> s" "s < 2 ^ 32" and f: "0 \<le> f" "f < 2 ^ 32"
    using assms by (simp_all add: u32_def)
  have 1: "float_of_int s = of_int s" using s by (intro float_of_int_exact) simp
  have 2: "int_truediv f (2 ^ 32) = of_int f / 2 ^ 32"
    using rd_grid[of f 32] f by (simp add: int_truediv_def)
  have sr: "(0::rat) \<le> of_int s" "(of_int s :: rat) \<le> 4294967295"
    using s by simp_all
  have "\<bar>f\<bar> < 2 ^ 32" using f by simp
  then have fr: "\<bar>(of_int f :: rat) / 2 ^ 32\<bar> < 1" by (rule frac_abs)
  have "0 \<le> (of_int f :: rat) / 2 ^ 32" using f by simp
  with sr fr have y: "0 \<le> y" "y < 4294967296" by (simp_all add: y_def)
  then have "\<bar>y\<bar> < 4294967296" by simp
  then have "\<bar>rd y - y\<bar> \<le> 2 powi (32 - 54)" by (rule rd_err) simp_all
  then have e1: "\<bar>rd y - y\<bar> \<le> 1 / 4194304" by (simp add: power_int_minus)
  have off: "get_ntp_timestamp_offset = - 2208988800" by (rule offset_value)
  have "\<bar>rd y + get_ntp_timestamp_offset\<bar> < 4294967296"
    using e1 y unfolding off by linarith
  then have "\<bar>rd (rd y + get_ntp_timestamp_offset) - (rd y + get_ntp_timestamp_offset)\<bar>
      \<le> 2 powi (32 - 54)" by (rule rd_err) simp_all
  then have e2: "\<bar>rd (rd y + get_ntp_timestamp_offset) - (rd y + get_ntp_timestamp_offset)\<bar>
      \<le> 1 / 4194304" by (simp add: power_int_minus)
  have "decode_ntp_timestamp s f = rd (rd y + get_ntp_timestamp_offset)"
    unfolding decode_ntp_timestamp_def Let_def 1 2 fadd_def y_def ..
  moreover have "\<bar>rd (rd y + get_ntp_timestamp_offset) - (y + get_ntp_timestamp_offset)\<bar>
      \<le> 1 / 2097152"
    using e1 e2 by linarith
  ultimately show ?thesis by (simp add: y_def)
qed

subsection \<open>Rounding returns a nearest float\<close>

text \<open>
  What IEEE 754 asks of rounding to nearest: \<open>rd x\<close> is a float (\<open>is_double_rd\<close>) and
  no float is nearer to \<open>x\<close>. A tie goes to the even significand by the definition of
  \<open>round_half_even\<close>.
\<close>

lemma round_half_even_nearest: "\<bar>of_int (round_half_even y) - y\<bar> \<le> \<bar>of_int n - y\<bar>"
proof -
  have f: "of_int \<lfloor>y\<rfloor> \<le> y" "y < of_int \<lfloor>y\<rfloor> + 1" by linarith+
  have r: "\<bar>of_int (round_half_even y) - y\<bar> \<le> y - of_int \<lfloor>y\<rfloor>"
    "\<bar>of_int (round_half_even y) - y\<bar> \<le> of_int \<lfloor>y\<rfloor> + 1 - y"
    using f unfolding round_half_even_def Let_def by (auto simp: abs_le_iff)
  consider (below) "n \<le> \<lfloor>y\<rfloor>" | (above) "\<lfloor>y\<rfloor> + 1 \<le> n" by linarith
  then show ?thesis
  proof cases
    case below
    then have "(of_int n :: rat) \<le> of_int \<lfloor>y\<rfloor>" by (simp only: of_int_le_iff)
    then have "y - of_int \<lfloor>y\<rfloor> \<le> \<bar>of_int n - y\<bar>" by linarith
    with r(1) show ?thesis by (rule order_trans)
  next
    case above
    then have "(of_int (\<lfloor>y\<rfloor> + 1) :: rat) \<le> of_int n" by (simp only: of_int_le_iff)
    then have "of_int \<lfloor>y\<rfloor> + 1 \<le> (of_int n :: rat)" by simp
    then have "of_int \<lfloor>y\<rfloor> + 1 - y \<le> \<bar>of_int n - y\<bar>" by linarith
    with r(2) show ?thesis by (rule order_trans)
  qed
qed

lemma rd_nearest_grid:
  assumes "x \<noteq> 0"
  shows "\<bar>rd x - x\<bar> \<le> \<bar>of_int n * 2 powi qexp x - x\<bar>"
proof -
  define q where "q = qexp x"
  define y where "y = x / 2 powi q"
  have x: "x = y * 2 powi q" by (simp add: y_def)
  have "rd x - x = (of_int (round_half_even y) - y) * 2 powi q"
    using assms by (simp add: rd_def y_def q_def algebra_simps)
  then have "\<bar>rd x - x\<bar> = \<bar>of_int (round_half_even y) - y\<bar> * 2 powi q"
    by (simp add: abs_mult)
  also have "\<dots> \<le> \<bar>of_int n - y\<bar> * 2 powi q"
    by (intro mult_right_mono round_half_even_nearest) simp
  also have "\<dots> = \<bar>(of_int n - y) * 2 powi q\<bar>" by (simp add: abs_mult)
  also have "(of_int n - y) * 2 powi q = of_int n * 2 powi q - x"
    by (simp add: y_def algebra_simps)
  finally show ?thesis by (simp add: q_def)
qed

lemma rd_nearest:
  assumes "is_double d"
  shows "\<bar>rd x - x\<bar> \<le> \<bar>d - x\<bar>"
proof (cases "x = 0")
  case True
  then show ?thesis by (simp add: rd_def)
next
  case False
  define q where "q = qexp x"
  obtain m e where d: "d = of_int m * 2 powi e" "\<bar>m\<bar> < 2 ^ 53" "- 1074 \<le> e"
    using is_double_form[OF assms] by blast
  show ?thesis
  proof (cases "q \<le> e")
    case True
    define j where "j = nat (e - q)"
    have "e = int j + q" using True by (simp add: j_def)
    then have "(2::rat) powi e = 2 powi (int j) * 2 powi q" by (simp only: two_powi_add)
    then have "d = of_int (m * 2 ^ j) * 2 powi q" by (simp add: d(1))
    then show ?thesis using rd_nearest_grid[OF False, of "m * 2 ^ j"] by (simp add: q_def)
  next
    case False
    then have eq: "e < q" by simp
    then have "- 1074 < q" using d(3) by simp
    then have q: "q = ilog2 x - 52" by (simp add: q_def qexp_def split: if_splits)
    have "\<bar>d\<bar> = of_int \<bar>m\<bar> * 2 powi e" by (simp add: d(1) abs_mult)
    also have "\<dots> \<le> of_int (2 ^ 53) * 2 powi e"
      using d(2) by (intro mult_right_mono) (simp_all only: of_int_le_iff two_powi_pos less_imp_le)
    also have "\<dots> \<le> of_int (2 ^ 53) * 2 powi (q - 1)"
      using eq by (intro mult_left_mono two_powi_mono) simp_all
    also have "\<dots> = 2 powi (ilog2 x)"
      unfolding q using two_powi_add[of 53 "ilog2 x - 52 - 1"] by simp
    finally have dk: "\<bar>d\<bar> \<le> 2 powi (ilog2 x)" .
    have xk: "2 powi (ilog2 x) \<le> \<bar>x\<bar>" by (rule ilog2_bounds(1)[OF \<open>x \<noteq> 0\<close>])
    define n0 :: int where "n0 = (if 0 < x then 2 ^ 52 else - (2 ^ 52))"
    define b :: rat where "b = of_int n0 * 2 powi qexp x"
    have "(2::rat) powi (ilog2 x) = 2 ^ 52 * 2 powi q"
      unfolding q using two_powi_add[of 52 "ilog2 x - 52"] by simp
    then have bval: "b = (if 0 < x then 1 else - 1) * 2 powi (ilog2 x)"
      by (simp add: b_def n0_def q_def)
    have "\<bar>rd x - x\<bar> \<le> \<bar>b - x\<bar>"
      unfolding b_def by (rule rd_nearest_grid[OF \<open>x \<noteq> 0\<close>])
    also have "\<bar>b - x\<bar> = \<bar>x\<bar> - 2 powi (ilog2 x)"
      using xk \<open>x \<noteq> 0\<close> unfolding bval by (auto simp: abs_if)
    also have "\<dots> \<le> \<bar>x\<bar> - \<bar>d\<bar>" using dk by simp
    also have "\<dots> \<le> \<bar>d - x\<bar>" by linarith
    finally show ?thesis .
  qed
qed

section \<open>The claims on the codec\<close>

text \<open>
  Claim C5. For every \<open>li\<close> in 0..3, \<open>vn\<close> in 0..7 and \<open>mode\<close> in 0..7, decoding
  the encoded composite byte returns the triple \<open>(li, vn, mode)\<close>, and the encoded
  byte, which the code computes with additions, equals
  \<^verbatim>\<open>(li << 6) | (vn << 3) | mode\<close>.
\<close>

theorem composite_byte_roundtrip:
  assumes "0 \<le> li p" "li p \<le> 3" "0 \<le> vn p" "vn p \<le> 7" "0 \<le> mode p" "mode p \<le> 7"
  shows "decode_li_vn_mode (encode_li_vn_mode p) = (li p, vn p, mode p) \<and>
         encode_li_vn_mode p = push_bit 6 (li p) OR push_bit 3 (vn p) OR mode p"
proof
  show "decode_li_vn_mode (encode_li_vn_mode p) = (li p, vn p, mode p)"
    using enc_arith[OF assms]
    by (simp add: decode_alt encode_li_vn_mode_def push_bit_eq_mult)
  show "encode_li_vn_mode p = push_bit 6 (li p) OR push_bit 3 (vn p) OR mode p"
    unfolding encode_li_vn_mode_def by (rule enc_or[OF assms])
qed

theorem composite_byte_roundtrip_witness:
  "decode_li_vn_mode (encode_li_vn_mode (init\<lparr>li := 3, vn := 4, mode := 3\<rparr>)) = (3, 4, 3) \<and>
   encode_li_vn_mode (init\<lparr>li := 3, vn := 4, mode := 3\<rparr>) = 227"
  using composite_byte_roundtrip[of "init\<lparr>li := 3, vn := 4, mode := 3\<rparr>"]
  by (simp add: encode_li_vn_mode_def)

text \<open>
  Claim C10. \<^verbatim>\<open>decode_li_vn_mode\<close> returns a triple on every byte value 0..255 (it
  has no failing branch), and the triple is in range: \<open>li\<close> in 0..3, \<open>vn\<close> in 0..7,
  \<open>mode\<close> in 0..7.
\<close>

theorem decode_li_vn_mode_range:
  assumes "0 \<le> val" "val \<le> 255"
  shows "case decode_li_vn_mode val of
           (l, v, m) \<Rightarrow> 0 \<le> l \<and> l \<le> 3 \<and> 0 \<le> v \<and> v \<le> 7 \<and> 0 \<le> m \<and> m \<le> 7"
  unfolding decode_alt by (simp add: mod_upper)

theorem decode_li_vn_mode_range_witness:
  "(0::int) \<le> 227 \<and> (227::int) \<le> 255 \<and> decode_li_vn_mode 227 = (3, 4, 3) \<and>
   (case decode_li_vn_mode 227 of
      (l, v, m) \<Rightarrow> 0 \<le> l \<and> l \<le> 3 \<and> 0 \<le> v \<and> v \<le> 7 \<and> 0 \<le> m \<and> m \<le> 7)"
  using decode_li_vn_mode_range[of 227] by (simp add: decode_alt)

text \<open>
  Claim C2. On a packet that carries the constructor's formats, \<^verbatim>\<open>from_bytes\<close> fails
  exactly when the buffer is not 48 bytes long, and the failure is the exception
  \<^verbatim>\<open>struct.error\<close> of the unpacking (the error the specification calls
  MalformedPacketError). A buffer of 48 bytes is always accepted and nothing is
  validated: the stratum is the second byte as it stands, and li, vn and mode are
  the bit fields of the first byte, whatever their values.
\<close>

theorem from_bytes_fails_iff_length:
  assumes "init_formats self"
  shows "(from_bytes self buff = Inl Struct_error \<longleftrightarrow> length buff \<noteq> 48) \<and>
         ((\<exists>p. from_bytes self buff = Inr p \<and> stratum p = uint (buff ! 1) \<and>
                (li p, vn p, mode p) = decode_li_vn_mode (uint (buff ! 0)))
            \<longleftrightarrow> length buff = 48)"
proof (cases "length buff = 48")
  case True
  then obtain vs where vs: "unpack_values packet_codes buff = Inr vs"
    using unpack_values_total[of buff packet_codes] by (auto simp: calcsize_packet_codes)
  from True obtain b0 b1 r where buff: "buff = b0 # b1 # r"
    by (cases buff; simp; rename_tac r1, case_tac r1; simp)
  from vs have "vs ! 0 = uint b0" "vs ! 1 = uint b1"
    unfolding buff packet_codes_def by (auto split: sum.splits)
  then have "stratum (assign_fields self vs) = uint (buff ! 1)"
    "(li (assign_fields self vs), vn (assign_fields self vs), mode (assign_fields self vs))
       = decode_li_vn_mode (uint (buff ! 0))"
    by (simp_all add: assign_fields_def buff split: prod.splits)
  with True from_bytes_unpacked[OF assms vs] show ?thesis by simp
next
  case False
  then have "unpack_values packet_codes buff = Inl Struct_error"
    by (intro unpack_values_error) (simp add: calcsize_packet_codes)
  with False assms show ?thesis
    by (simp add: from_bytes_def struct_unpack_init_formats)
qed

theorem from_bytes_fails_iff_length_witness:
  "from_bytes init (replicate 47 0) = Inl Struct_error \<and>
   (\<exists>p. from_bytes init (replicate 48 255) = Inr p \<and> stratum p = 255 \<and>
        (li p, vn p, mode p) = (3, 7, 7))"
proof -
  have i: "init_formats init" by (simp add: init_formats_def init_def)
  show ?thesis
    using from_bytes_fails_iff_length[OF i, of "replicate 47 0"]
      from_bytes_fails_iff_length[OF i, of "replicate 48 255"]
    by (simp add: decode_alt)
qed

text \<open>
  Claim C9. For every buffer of exactly 48 bytes, parsing it (into a packet that
  carries the constructor's formats) and serialising the result gives the buffer
  back, byte for byte.
\<close>

theorem to_bytes_from_bytes:
  assumes "init_formats self" "length buff = 48"
  shows "\<exists>p. from_bytes self buff = Inr p \<and> to_bytes p = Inr buff"
proof -
  obtain vs where vs: "unpack_values packet_codes buff = Inr vs"
    using unpack_values_total[of buff packet_codes] assms(2) by (auto simp: calcsize_packet_codes)
  have len: "length vs = 15"
    using unpack_values_length[OF vs] by (simp add: length_packet_codes)
  have hd: "0 \<le> vs ! 0" "vs ! 0 \<le> 255" using unpacked_head_range[OF vs] by simp_all
  have "to_bytes (assign_fields self vs) = pack_values packet_codes vs"
    using to_bytes_init_formats[OF init_formats_assign_fields[OF assms(1)], of vs]
    by (simp add: get_packet_value_assign_fields[OF len hd])
  also have "\<dots> = Inr buff" by (rule unpack_pack_values[OF vs])
  finally show ?thesis using from_bytes_unpacked[OF assms(1) vs] by simp
qed

theorem to_bytes_from_bytes_witness:
  "\<exists>p. from_bytes init (replicate 48 255) = Inr p \<and> to_bytes p = Inr (replicate 48 255)"
proof -
  have i: "init_formats init" by (simp add: init_formats_def init_def)
  show ?thesis using to_bytes_from_bytes[OF i, of "replicate 48 255"] by simp
qed

text \<open>
  Claim C1 says that every packet within the declared ranges of the data model,
  \<open>precision\<close> being a signed value in -128..127, survives
  \<^verbatim>\<open>from_bytes(to_bytes(p))\<close>. The format code of \<open>precision\<close> is the unsigned
  \<^verbatim>\<open>B\<close>: a packet with \<open>precision = -1\<close> is within the declared ranges and
  \<^verbatim>\<open>to_bytes\<close> raises \<^verbatim>\<open>struct.error\<close> on it, so there is nothing to parse.
\<close>

theorem roundtrip_negative_precision_counterexample:
  "- 128 \<le> precision (init\<lparr>precision := - 1\<rparr>) \<and> precision (init\<lparr>precision := - 1\<rparr>) \<le> 127 \<and>
   to_bytes (init\<lparr>precision := - 1\<rparr>) = Inl Struct_error"
  by (simp add: to_bytes_def struct_pack_def get_packet_format_def get_packet_value_def
      init_def encode_li_vn_mode_def)

text \<open>
  Claim C1, amended. For every packet \<open>p\<close> whose fields are within the ranges of
  their format codes (\<open>li\<close> in 0..3, \<open>vn\<close> in 0..7, \<open>mode\<close> in 0..7, \<open>stratum\<close>,
  \<open>poll\<close> and \<open>precision\<close> in 0..255, every 32-bit field and every timestamp part in
  0..4294967295), \<^verbatim>\<open>to_bytes\<close> succeeds and \<^verbatim>\<open>from_bytes\<close> of its result reproduces
  \<open>p\<close> exactly, field for field, including the three parts of the composite byte.
  Both packets carry the constructor's formats.
\<close>

theorem from_bytes_to_bytes:
  assumes "init_formats p" "init_formats self" "well_formed p"
  shows "\<exists>b. to_bytes p = Inr b \<and> from_bytes self b = Inr p"
proof -
  obtain b where b: "pack_values packet_codes (get_packet_value p) = Inr b"
    using pack_values_fits[OF well_formed_fits[OF assms(3)]] by blast
  have u: "unpack_values packet_codes b = Inr (get_packet_value p)"
    by (rule pack_unpack_values[OF b])
  have r: "0 \<le> li p" "li p \<le> 3" "0 \<le> vn p" "vn p \<le> 7" "0 \<le> mode p" "mode p \<le> 7"
    using assms(3) by (simp_all add: well_formed_def)
  have "from_bytes self b = Inr p"
    using from_bytes_unpacked[OF assms(2) u]
    by (simp add: assign_fields_get_packet_value[OF assms(1,2) r])
  with b show ?thesis by (simp add: to_bytes_init_formats[OF assms(1)])
qed

theorem from_bytes_to_bytes_witness:
  "\<exists>b. to_bytes (init\<lparr>li := 3, vn := 4, mode := 4, precision := 236\<rparr>) = Inr b \<and>
       from_bytes init b = Inr (init\<lparr>li := 3, vn := 4, mode := 4, precision := 236\<rparr>)"
  using from_bytes_to_bytes[of "init\<lparr>li := 3, vn := 4, mode := 4, precision := 236\<rparr>" init]
  by (simp add: init_formats_def well_formed_def init_def)

text \<open>
  Claim C4 says that a field value that overflows its width, such as a stratum above
  255, is silently truncated by the packing. A packet with \<open>stratum = 256\<close> is not
  packed at all: \<^verbatim>\<open>to_bytes\<close> raises \<^verbatim>\<open>struct.error\<close>.
\<close>

theorem to_bytes_overflow_counterexample:
  "to_bytes (init\<lparr>stratum := 256\<rparr>) = Inl Struct_error"
  by (simp add: to_bytes_def struct_pack_def get_packet_format_def get_packet_value_def
      init_def encode_li_vn_mode_def)

text \<open>
  Claim C4, amended. On a packet that carries the constructor's formats,
  \<^verbatim>\<open>to_bytes\<close> never fails when every field is within the range of its format code,
  and then returns 48 bytes. A value outside the range of its code is not truncated
  or wrapped: a stratum above 255, and more generally any packed value that does not
  fit its code, makes \<^verbatim>\<open>to_bytes\<close> raise \<^verbatim>\<open>struct.error\<close>.
\<close>

theorem to_bytes_checks_ranges:
  assumes "init_formats p"
  shows "(well_formed p \<longrightarrow> (\<exists>b. to_bytes p = Inr b \<and> length b = 48)) \<and>
         (255 < stratum p \<longrightarrow> to_bytes p = Inl Struct_error) \<and>
         (\<not> list_all2 fits packet_codes (get_packet_value p) \<longrightarrow> to_bytes p = Inl Struct_error)"
proof (intro conjI impI)
  assume "well_formed p"
  then show "\<exists>b. to_bytes p = Inr b \<and> length b = 48"
    using pack_values_fits[OF well_formed_fits, of p]
    by (simp add: to_bytes_init_formats[OF assms] calcsize_packet_codes)
next
  assume "\<not> list_all2 fits packet_codes (get_packet_value p)"
  then show "to_bytes p = Inl Struct_error"
    by (simp add: to_bytes_init_formats[OF assms] pack_values_unfit)
next
  assume "255 < stratum p"
  then have "\<not> list_all2 fits packet_codes (get_packet_value p)"
    by (simp add: packet_codes_def get_packet_value_def)
  then show "to_bytes p = Inl Struct_error"
    by (simp add: to_bytes_init_formats[OF assms] pack_values_unfit)
qed

theorem to_bytes_checks_ranges_witness:
  "(\<exists>b. to_bytes (init\<lparr>vn := 4, mode := 3\<rparr>) = Inr b \<and> length b = 48) \<and>
   to_bytes (init\<lparr>stratum := 300\<rparr>) = Inl Struct_error \<and>
   to_bytes (init\<lparr>root_delay := 4294967296\<rparr>) = Inl Struct_error"
  using to_bytes_checks_ranges[of "init\<lparr>vn := 4, mode := 3\<rparr>"]
    to_bytes_checks_ranges[of "init\<lparr>stratum := 300\<rparr>"]
    to_bytes_checks_ranges[of "init\<lparr>root_delay := 4294967296\<rparr>"]
  by (simp add: init_formats_def well_formed_def init_def packet_codes_def get_packet_value_def)

section \<open>The claims on timestamps and the offset\<close>

text \<open>
  Claim C3 says that with the four pairs supplied positionally as
  \<open>(t1, t2, t3, t4)\<close> the result is the offset formula, and that
  \<^verbatim>\<open>compute_offset((0,0),(1,0),(1,0),(0,0))\<close> is 1.0. The second parameter of the
  code is the client's reception time and the fourth the server's reception time:
  on these arguments the code returns 0, where the formula gives 1.
\<close>

theorem compute_offset_positional_counterexample:
  "compute_offset (0, 0) (1, 0) (1, 0) (0, 0) = 0 \<and>
   spec_offset (0, 0) (1, 0) (1, 0) (0, 0) = 1"
  by code_simp

text \<open>
  Claim C3, amended. With the four pairs supplied in the order of the signature
  (client transmit \<open>t1\<close>, client receive \<open>t4\<close>, server transmit \<open>t3\<close>, server
  receive \<open>t2\<close>), \<^verbatim>\<open>compute_offset\<close> returns the offset formula with signed
  differences, evaluated in double precision, for all 32-bit component values: the
  result is within \<open>7 / 2 ^ 22\<close> of the exact value, and it is the exact value
  whenever the two differences of seconds are below \<open>2 ^ 20\<close> in magnitude. In
  particular \<^verbatim>\<open>compute_offset((0,0),(0,0),(1,0),(1,0))\<close> is 1.
\<close>

theorem compute_offset_signature_order:
  assumes "ntp_pair t1" "ntp_pair t2" "ntp_pair t3" "ntp_pair t4"
  shows "\<bar>compute_offset t1 t4 t3 t2 - spec_offset t1 t2 t3 t4\<bar> \<le> 7 / 2 ^ 22 \<and>
         (\<bar>fst t2 - fst t1\<bar> < 2 ^ 20 \<and> \<bar>fst t3 - fst t4\<bar> < 2 ^ 20 \<longrightarrow>
            compute_offset t1 t4 t3 t2 = spec_offset t1 t2 t3 t4) \<and>
         compute_offset (0, 0) (0, 0) (1, 0) (1, 0) = 1"
proof -
  define a where "a = fst t2 - fst t1"
  define b where "b = fst t3 - fst t4"
  define c where "c = snd t2 - snd t1"
  define d where "d = snd t3 - snd t4"
  have p: "u32 (fst t1)" "u32 (snd t1)" "u32 (fst t2)" "u32 (snd t2)"
    "u32 (fst t3)" "u32 (snd t3)" "u32 (fst t4)" "u32 (snd t4)"
    using assms by (simp_all add: ntp_pair_def)
  have r: "\<bar>c\<bar> < 2 ^ 32" "\<bar>d\<bar> < 2 ^ 32" "\<bar>a\<bar> < 2 ^ 32" "\<bar>b\<bar> < 2 ^ 32"
    unfolding a_def b_def c_def d_def by (intro u32_diff p)+
  have co: "compute_offset t1 t4 t3 t2 =
      rd (rd (rd (rd (of_int a + of_int c / 2 ^ 32) + of_int b) + of_int d / 2 ^ 32) / 2)"
    unfolding compute_offset_def Let_def a_def[symmetric] b_def[symmetric] c_def[symmetric]
      d_def[symmetric] by (rule compute_offset_unfold[OF r])
  have sp: "spec_offset t1 t2 t3 t4 =
      ((of_int a + of_int c / 2 ^ 32) + (of_int b + of_int d / 2 ^ 32)) / 2"
    by (simp add: spec_offset_def a_def b_def c_def d_def)
  have 1: "\<bar>compute_offset t1 t4 t3 t2 - spec_offset t1 t2 t3 t4\<bar> \<le> 7 / 2 ^ 22"
    unfolding co sp by (rule offset_chain_error[OF r])
  have 2: "compute_offset t1 t4 t3 t2 = spec_offset t1 t2 t3 t4"
    if "\<bar>a\<bar> < 2 ^ 20" "\<bar>b\<bar> < 2 ^ 20"
    unfolding co sp by (rule offset_chain_exact[OF r(1,2) that])
  have 3: "compute_offset (0, 0) (0, 0) (1, 0) (1, 0) = 1" by code_simp
  from 1 2 3 show ?thesis unfolding a_def b_def by blast
qed

theorem compute_offset_signature_order_witness:
  "ntp_pair (3908988800, 0) \<and> ntp_pair (3908988801, 2147483648) \<and>
   ntp_pair (3908988801, 3221225472) \<and> ntp_pair (3908988802, 0) \<and>
   compute_offset (3908988800, 0) (3908988802, 0) (3908988801, 3221225472)
     (3908988801, 2147483648) = 5 / 8"
proof -
  have h: "ntp_pair (3908988800, 0)" "ntp_pair (3908988801, 2147483648)"
    "ntp_pair (3908988801, 3221225472)" "ntp_pair (3908988802, 0)"
    by (simp_all add: ntp_pair_def u32_def)
  show ?thesis
    using h compute_offset_signature_order[OF h]
    by (simp add: spec_offset_def)
qed



text \<open>
  Claim C7 says that decoding the encoded pair yields the calendar time to within
  \<open>1 / 2 ^ 32\<close> seconds. At the float \<open>1700000000 + 1 / 2 ^ 22\<close>, inside the
  representable range, the subtraction of the epoch offset rounds (floats near
  \<open>2 ^ 32\<close> are \<open>1 / 2 ^ 21\<close> apart) and the round trip returns 1700000000: the
  error is \<open>1 / 2 ^ 22\<close>.
\<close>

theorem timestamp_roundtrip_counterexample:
  "is_double (1700000000 + 1 / 2 ^ 22) \<and>
   0 \<le> (1700000000 + 1 / 2 ^ 22) - get_ntp_timestamp_offset \<and>
   (1700000000 + 1 / 2 ^ 22) - get_ntp_timestamp_offset < 2 ^ 32 \<and>
   roundtrip_timestamp (1700000000 + 1 / 2 ^ 22) = 1700000000 \<and>
   \<not> \<bar>roundtrip_timestamp (1700000000 + 1 / 2 ^ 22) - (1700000000 + 1 / 2 ^ 22)\<bar> \<le> 1 / 2 ^ 32"
  by code_simp

text \<open>
  Claim C7, amended. For every float \<open>t\<close> with \<open>0 \<le> t - epoch_offset < 2 ^ 32\<close>,
  decoding the encoded pair yields \<open>t\<close> to within \<open>1 / 2 ^ 21 + 1 / 2 ^ 32\<close>
  seconds: two roundings of at most \<open>1 / 2 ^ 22\<close> and the truncation of the
  fraction, below \<open>1 / 2 ^ 32\<close>. \<^verbatim>\<open>decode_ntp_timestamp(seconds, fraction)\<close> is
  \<open>seconds + fraction / 2 ^ 32 + epoch_offset\<close> in double precision, within
  \<open>1 / 2 ^ 21\<close> of the exact sum for 32-bit arguments.
\<close>

theorem timestamp_roundtrip_bound:
  assumes "is_double t" "0 \<le> t - get_ntp_timestamp_offset" "t - get_ntp_timestamp_offset < 2 ^ 32"
  shows "\<bar>roundtrip_timestamp t - t\<bar> \<le> 1 / 2 ^ 21 + 1 / 2 ^ 32 \<and>
         (\<forall>s f. u32 s \<and> u32 f \<longrightarrow>
            \<bar>decode_ntp_timestamp s f - (of_int s + of_int f / 2 ^ 32 + get_ntp_timestamp_offset)\<bar>
              \<le> 1 / 2 ^ 21)"
  using roundtrip_bound[OF assms] decode_error by blast

theorem timestamp_roundtrip_bound_witness:
  "is_double (1700000000 + 1 / 2 ^ 22) \<and>
   \<bar>roundtrip_timestamp (1700000000 + 1 / 2 ^ 22) - (1700000000 + 1 / 2 ^ 22)\<bar>
     \<le> 1 / 2 ^ 21 + 1 / 2 ^ 32 \<and>
   \<bar>decode_ntp_timestamp 3908988800 2147483648
      - (3908988800 + 2147483648 / 2 ^ 32 + get_ntp_timestamp_offset)\<bar> \<le> 1 / 2 ^ 21"
proof -
  have h1: "is_double (1700000000 + 1 / 2 ^ 22)" by code_simp
  have h2: "0 \<le> (1700000000 + 1 / 2 ^ 22) - get_ntp_timestamp_offset"
    "(1700000000 + 1 / 2 ^ 22) - get_ntp_timestamp_offset < 2 ^ 32"
    by (simp_all add: offset_value)
  have h3: "u32 3908988800 \<and> u32 2147483648" by (simp add: u32_def)
  note th = timestamp_roundtrip_bound[OF h1 h2]
  from th have a: "\<bar>roundtrip_timestamp (1700000000 + 1 / 2 ^ 22) - (1700000000 + 1 / 2 ^ 22)\<bar>
     \<le> 1 / 2 ^ 21 + 1 / 2 ^ 32" by (rule conjunct1)
  from th h3 have "\<bar>decode_ntp_timestamp 3908988800 2147483648
      - (of_int 3908988800 + of_int 2147483648 / 2 ^ 32 + get_ntp_timestamp_offset)\<bar> \<le> 1 / 2 ^ 21"
    by blast
  then have b: "\<bar>decode_ntp_timestamp 3908988800 2147483648
      - (3908988800 + 2147483648 / 2 ^ 32 + get_ntp_timestamp_offset)\<bar> \<le> 1 / 2 ^ 21"
    by simp
  from h1 a b show ?thesis by (intro conjI)
qed

text \<open>
  Claim C8. For any reading \<open>now\<close> of the clock, the client request packet has
  \<open>li = 0\<close>, \<open>vn = 4\<close>, \<open>mode = 3\<close>, every other scalar field zero, the reference,
  originate and receive timestamps \<open>(0, 0)\<close>, and the transmit timestamp
  \<open>encode_ntp_timestamp now\<close>.
\<close>

theorem client_packet_fields:
  "li (client_packet now) = 0 \<and> vn (client_packet now) = 4 \<and> mode (client_packet now) = 3 \<and>
   stratum (client_packet now) = 0 \<and> poll (client_packet now) = 0 \<and>
   precision (client_packet now) = 0 \<and> root_delay (client_packet now) = 0 \<and>
   root_dispersion (client_packet now) = 0 \<and> reference_identifier (client_packet now) = 0 \<and>
   reference_timestamp (client_packet now) = (0, 0) \<and>
   originate_timestamp (client_packet now) = (0, 0) \<and>
   receive_timestamp (client_packet now) = (0, 0) \<and>
   transmit_timestamp (client_packet now) = encode_ntp_timestamp now"
  by (simp add: client_packet_def init_def Let_def)

end
